theory Spec2Isabelle
  imports Complex_Main "HOL-Library.Word" "HOL-Library.Multiset"
begin

unbundle bit_operations_syntax

section \<open>Board data used by the evaluator\<close>

text \<open>
  Modelled from the spec: the evaluator (\<^verbatim>\<open>NeuralNetworkEvaluator.cpp\<close>) reads
  positions through the types \<^verbatim>\<open>Color\<close>, \<^verbatim>\<open>Piece\<close>, \<^verbatim>\<open>Square\<close>, \<^verbatim>\<open>Bitboard\<close>,
  \<^verbatim>\<open>SidePosition\<close> and \<^verbatim>\<open>Position\<close>, whose declarations are not among the sources.
  They are written here with the fields and methods the evaluator uses. The two
  colours index arrays as 0 (White) and 1 (Black).
\<close>

datatype Color = White | Black

fun GetOppositeColor :: "Color \<Rightarrow> Color" where
  "GetOppositeColor White = Black"
| "GetOppositeColor Black = White"

datatype Piece = Pawn | Knight | Bishop | Rook | Queen | King

text \<open>
  Modelled from the spec: the numeric values of the enumeration \<^verbatim>\<open>Piece\<close> (declared
  outside the sources). The spec fixes the order pawn, knight, bishop, rook, queen,
  king; the evaluator only uses the difference to \<^verbatim>\<open>Piece::Pawn\<close>.
\<close>

fun PieceValue :: "Piece \<Rightarrow> 32 word" where
  "PieceValue Pawn = 1"
| "PieceValue Knight = 2"
| "PieceValue Bishop = 3"
| "PieceValue Rook = 4"
| "PieceValue Queen = 5"
| "PieceValue King = 6"

type_synonym Bitboard = "64 word"

text \<open>
  Modelled from the spec: \<^verbatim>\<open>Bitboard::Iterate\<close> calls its argument on the index of
  every set bit, lowest first (the spec commits the encoder to a fixed bitboard
  iteration order); \<^verbatim>\<open>Bitboard::Count\<close> is the number of set bits.
\<close>

definition Iterate :: "Bitboard \<Rightarrow> nat list" where
  "Iterate bitboard = filter (bit bitboard) [0..<64]"

definition Count :: "Bitboard \<Rightarrow> nat" where
  "Count bitboard = length (Iterate bitboard)"

text \<open>
  Modelled from the spec: a \<^verbatim>\<open>Square\<close> holds a byte \<^verbatim>\<open>mIndex\<close>; the squares of the
  board are the 6-bit indices 0..63, file = index mod 8 (a..h), rank = index div 8;
  flipping files is XOR 0b000111, flipping ranks is XOR 0b111000. Any other byte is
  an invalid square.
\<close>

type_synonym Square = "8 word"

definition IsValid :: "Square \<Rightarrow> bool" where
  "IsValid sq = (sq < 64)"

definition File :: "Square \<Rightarrow> 8 word" where
  "File sq = sq mod 8"

definition Rank :: "Square \<Rightarrow> 8 word" where
  "Rank sq = sq div 8"

definition Index :: "Square \<Rightarrow> 8 word" where
  "Index sq = sq"

definition FlippedFile :: "Square \<Rightarrow> Square" where
  "FlippedFile sq = sq XOR 7"

definition FlippedRank :: "Square \<Rightarrow> Square" where
  "FlippedRank sq = sq XOR 56"

record SidePosition =
  pawns :: Bitboard
  knights :: Bitboard
  bishops :: Bitboard
  rooks :: Bitboard
  queens :: Bitboard
  king :: Bitboard

text \<open>
  Modelled from the spec: \<^verbatim>\<open>GetKingSquare\<close> (declared outside the sources) is the
  square of the king, the first bit of the king bitboard. A position has a king on
  each side; for an empty king bitboard the model returns the invalid square
  \<^verbatim>\<open>0xFF\<close>, and the theorems below are about positions with kings.
\<close>

definition GetKingSquare :: "SidePosition \<Rightarrow> Square" where
  "GetKingSquare side = (case Iterate (king side) of [] \<Rightarrow> 255 | i # _ \<Rightarrow> of_nat i)"

record Position =
  Whites :: SidePosition
  Blacks :: SidePosition
  sideToMove :: Color

fun GetSide :: "Position \<Rightarrow> Color \<Rightarrow> SidePosition" where
  "GetSide pos White = Whites pos"
| "GetSide pos Black = Blacks pos"

definition GetSideToMove :: "Position \<Rightarrow> Color" where
  "GetSideToMove pos = sideToMove pos"

text \<open>
  Modelled from the spec: \<^verbatim>\<open>GetNumPieces\<close> is the number of pieces on the board and
  \<^verbatim>\<open>GetNumPiecesExcludingKing\<close> the number of those that are not kings (both declared
  outside the sources).
\<close>

definition SideCount :: "SidePosition \<Rightarrow> nat" where
  "SideCount side = Count (pawns side) + Count (knights side) + Count (bishops side)
     + Count (rooks side) + Count (queens side) + Count (king side)"

definition GetNumPieces :: "Position \<Rightarrow> nat" where
  "GetNumPieces pos = SideCount (Whites pos) + SideCount (Blacks pos)"

definition GetNumPiecesExcludingKing :: "Position \<Rightarrow> nat" where
  "GetNumPiecesExcludingKing pos =
     GetNumPieces pos - Count (king (Whites pos)) - Count (king (Blacks pos))"

text \<open>The bitboard that holds the pieces of one type of one side.\<close>

fun PieceBitboard :: "SidePosition \<Rightarrow> Piece \<Rightarrow> Bitboard" where
  "PieceBitboard side Pawn = pawns side"
| "PieceBitboard side Knight = knights side"
| "PieceBitboard side Bishop = bishops side"
| "PieceBitboard side Rook = rooks side"
| "PieceBitboard side Queen = queens side"
| "PieceBitboard side King = king side"

text \<open>A piece of the given type and colour stands on the square.\<close>

definition PieceOn :: "Position \<Rightarrow> Piece \<Rightarrow> Color \<Rightarrow> Square \<Rightarrow> bool" where
  "PieceOn pos piece pieceColor sq =
     (IsValid sq \<and> bit (PieceBitboard (GetSide pos pieceColor) piece) (unat sq))"

text \<open>Each side has exactly one king, as every chess position has.\<close>

definition HasKings :: "Position \<Rightarrow> bool" where
  "HasKings pos = (Count (king (Whites pos)) = 1 \<and> Count (king (Blacks pos)) = 1)"

section \<open>The feature encoder\<close>

text \<open>
  \<^verbatim>\<open>PositionToFeaturesVector\<close>. The output buffer and \<^verbatim>\<open>numFeatures\<close> are the list of
  the entries written so far (the returned count is its length); \<^verbatim>\<open>numInputs\<close> is
  the running offset. The lambda \<^verbatim>\<open>writePieceFeatures\<close> takes and returns both.
\<close>

definition writePieceFeatures ::
  "Bitboard \<Rightarrow> 32 word \<Rightarrow> 16 word list \<times> 32 word \<Rightarrow> 16 word list \<times> 32 word" where
  "writePieceFeatures bitboard bitFlipMask st =
     (case st of (outFeatures, numInputs) \<Rightarrow>
        (outFeatures @
           map (\<lambda>square. ucast (numInputs + ((of_nat square :: 32 word) XOR bitFlipMask)))
             (Iterate bitboard),
         numInputs + 64))"

text \<open>The king squares and the flip mask after the two conditional flips.\<close>

definition FlipSetup :: "Position \<Rightarrow> Color \<Rightarrow> Square \<times> Square \<times> 32 word" where
  "FlipSetup pos perspective =
     (let whites = GetSide pos perspective;
          blacks = GetSide pos (GetOppositeColor perspective);
          whiteKingSquare = GetKingSquare whites;
          blackKingSquare = GetKingSquare blacks;
          bitFlipMask = 0;
          (whiteKingSquare, blackKingSquare, bitFlipMask) =
            (if File whiteKingSquare \<ge> 4
             then (FlippedFile whiteKingSquare, FlippedFile blackKingSquare, 7)
             else (whiteKingSquare, blackKingSquare, bitFlipMask));
          (whiteKingSquare, blackKingSquare, bitFlipMask) =
            (if perspective = Black
             then (FlippedRank whiteKingSquare, FlippedRank blackKingSquare, bitFlipMask OR 56)
             else (whiteKingSquare, blackKingSquare, bitFlipMask))
      in (whiteKingSquare, blackKingSquare, bitFlipMask))"

definition PositionToFeaturesVector :: "Position \<Rightarrow> Color \<Rightarrow> 16 word list" where
  "PositionToFeaturesVector pos perspective =
     (let whites = GetSide pos perspective;
          blacks = GetSide pos (GetOppositeColor perspective);
          (whiteKingSquare, blackKingSquare, bitFlipMask) = FlipSetup pos perspective;
          st = ([], 0);
          st = writePieceFeatures (pawns whites) bitFlipMask st;
          st = writePieceFeatures (knights whites) bitFlipMask st;
          st = writePieceFeatures (bishops whites) bitFlipMask st;
          st = writePieceFeatures (rooks whites) bitFlipMask st;
          st = writePieceFeatures (queens whites) bitFlipMask st;
          whiteKingIndex = 4 * ucast (Rank whiteKingSquare) + ucast (File whiteKingSquare);
          st = (fst st @ [ucast (snd st + whiteKingIndex)], snd st + 32);
          st = writePieceFeatures (pawns blacks) bitFlipMask st;
          st = writePieceFeatures (knights blacks) bitFlipMask st;
          st = writePieceFeatures (bishops blacks) bitFlipMask st;
          st = writePieceFeatures (rooks blacks) bitFlipMask st;
          st = writePieceFeatures (queens blacks) bitFlipMask st;
          st = (fst st @ [ucast (snd st + ucast (Index blackKingSquare))], snd st + 64)
      in fst st)"

text \<open>
  \<^verbatim>\<open>DirtyPieceToFeatureIndex\<close>. The assertions of the source are debug checks and
  do not change the value computed.
\<close>

definition DirtyPieceToFeatureIndex ::
  "Piece \<Rightarrow> Color \<Rightarrow> Square \<Rightarrow> Position \<Rightarrow> Color \<Rightarrow> 32 word" where
  "DirtyPieceToFeatureIndex piece pieceColor square pos perspective =
     (let relativeSquare = square;
          relativeSquare =
            (if perspective = Black then FlippedRank relativeSquare else relativeSquare);
          relativeSquare =
            (if File (GetKingSquare (GetSide pos perspective)) \<ge> 4
             then FlippedFile relativeSquare else relativeSquare);
          index =
            (if piece = King \<and> pieceColor = perspective
             then 5 * 64 + (4 * ucast (Rank relativeSquare) + ucast (File relativeSquare))
             else (PieceValue piece - PieceValue Pawn) * 64 + ucast (Index relativeSquare));
          index = (if pieceColor \<noteq> perspective then index + (32 + 5 * 64) else index)
      in index)"

text \<open>\<^verbatim>\<open>GetNetworkVariant\<close>.\<close>

definition GetNetworkVariant :: "Position \<Rightarrow> nat" where
  "GetNetworkVariant pos =
     (let numPieceCountBuckets = 8;
          pieceCountBucket = min (GetNumPiecesExcludingKing pos div 4) (numPieceCountBuckets - 1);
          queenPresenceBucket =
            (if queens (Whites pos) \<noteq> 0 \<or> queens (Blacks pos) \<noteq> 0 then 1 else 0)
      in queenPresenceBucket * numPieceCountBuckets + pieceCountBucket)"

text \<open>The standard initial position, White to move.\<close>

definition StartPosition :: Position where
  "StartPosition =
     \<lparr> Whites = \<lparr> pawns = 0xFF00, knights = 0x42, bishops = 0x24, rooks = 0x81,
                  queens = 0x08, king = 0x10 \<rparr>,
       Blacks = \<lparr> pawns = 0x00FF000000000000, knights = 0x4200000000000000,
                  bishops = 0x2400000000000000, rooks = 0x8100000000000000,
                  queens = 0x0800000000000000, king = 0x1000000000000000 \<rparr>,
       sideToMove = White \<rparr>"

section \<open>Notions used to state the encoder's properties\<close>

text \<open>
  The two flips as one XOR mask on the 6-bit square index: the file flip
  (\<^verbatim>\<open>0b000111\<close>) when the king of the side whose perspective is taken stands on
  files e..h, the rank flip (\<^verbatim>\<open>0b111000\<close>) when the perspective is Black.
\<close>

definition FlipMask :: "Position \<Rightarrow> Color \<Rightarrow> 8 word" where
  "FlipMask pos perspective =
     (if File (GetKingSquare (GetSide pos perspective)) \<ge> 4 then 7 else 0)
       XOR (if perspective = Black then 56 else 0)"

text \<open>The entries one call of \<^verbatim>\<open>writePieceFeatures\<close> appends.\<close>

definition Segment :: "32 word \<Rightarrow> 32 word \<Rightarrow> Bitboard \<Rightarrow> 16 word list" where
  "Segment numInputs bitFlipMask bitboard =
     map (\<lambda>square. ucast (numInputs + ((of_nat square :: 32 word) XOR bitFlipMask))) (Iterate bitboard)"

text \<open>
  The pieces on the board as (piece, colour, square) occurrences, in the order the
  encoder visits them: the side whose perspective is taken first; each side by type
  pawn, knight, bishop, rook, queen, king; each type by ascending square.
\<close>

definition SidePieces :: "Position \<Rightarrow> Color \<Rightarrow> (Piece \<times> Color \<times> Square) list" where
  "SidePieces pos c =
     concat (map (\<lambda>piece. map (\<lambda>i. (piece, c, of_nat i))
                              (Iterate (PieceBitboard (GetSide pos c) piece)))
                 [Pawn, Knight, Bishop, Rook, Queen, King])"

definition PieceList :: "Position \<Rightarrow> Color \<Rightarrow> (Piece \<times> Color \<times> Square) list" where
  "PieceList pos perspective =
     SidePieces pos perspective @ SidePieces pos (GetOppositeColor perspective)"

text \<open>
  What the incremental path computes for one piece occurrence: the 16-bit entry
  \<^verbatim>\<open>(uint16_t)DirtyPieceToFeatureIndex(...)\<close>, as \<^verbatim>\<open>UpdateAccumulator\<close> stores it.
\<close>

definition FeatureOf :: "Position \<Rightarrow> Color \<Rightarrow> Piece \<times> Color \<times> Square \<Rightarrow> 16 word" where
  "FeatureOf pos perspective x =
     (case x of (piece, c, sq) \<Rightarrow> ucast (DirtyPieceToFeatureIndex piece c sq pos perspective))"

text \<open>
  The index as a function of the piece type, of whether the piece belongs to the side
  whose perspective is taken, and of the flipped square.
\<close>

definition FeatureIndexOf :: "Piece \<Rightarrow> bool \<Rightarrow> Square \<Rightarrow> 32 word" where
  "FeatureIndexOf piece own rel =
     (if piece = King \<and> own
      then 320 + (4 * ucast (Rank rel) + ucast (File rel))
      else (PieceValue piece - 1) * 64 + ucast rel) + (if \<not> own then 352 else 0)"

text \<open>
  The 736 combinations of piece type, side and flipped square that the feature space
  has a slot for, listed in the order of their slots: an own king only on files a..d.
\<close>

definition ValidTriples :: "(Piece \<times> bool \<times> Square) list" where
  "ValidTriples =
     concat (map (\<lambda>piece. map (\<lambda>k. (piece, True, of_nat k)) [0..<64])
               [Pawn, Knight, Bishop, Rook, Queen])
     @ concat (map (\<lambda>r. map (\<lambda>f. (King, True, of_nat (8 * r + f))) [0..<4]) [0..<8])
     @ concat (map (\<lambda>piece. map (\<lambda>k. (piece, False, of_nat k)) [0..<64])
               [Pawn, Knight, Bishop, Rook, Queen, King])"

text \<open>
  The flip rule in the words of the spec, which names the king of the side to move
  where the encoder reads the king of the side whose perspective is taken.
\<close>

definition FlipMaskSideToMove :: "Position \<Rightarrow> Color \<Rightarrow> 8 word" where
  "FlipMaskSideToMove pos perspective =
     (if File (GetKingSquare (GetSide pos (GetSideToMove pos))) \<ge> 4 then 7 else 0)
       XOR (if perspective = Black then 56 else 0)"

text \<open>
  White to move, White king a1, White pawn a2, Black king h8: the two kings stand on
  different halves of the board.
\<close>

definition KingsApartPosition :: Position where
  "KingsApartPosition =
     \<lparr> Whites = \<lparr> pawns = 0x0100, knights = 0, bishops = 0, rooks = 0, queens = 0, king = 0x01 \<rparr>,
       Blacks = \<lparr> pawns = 0, knights = 0, bishops = 0, rooks = 0, queens = 0,
                  king = 0x8000000000000000 \<rparr>,
       sideToMove = White \<rparr>"

section \<open>The incremental evaluator\<close>

text \<open>
  Modelled from the spec: \<^verbatim>\<open>DirtyPiece\<close>, \<^verbatim>\<open>NNEvaluatorContext\<close> and \<^verbatim>\<open>NodeInfo\<close>
  are declared outside the sources; they have the fields the evaluator reads and
  writes. A dirty piece is a board change between a search node and its parent; an
  invalid \<^verbatim>\<open>fromSquare\<close> makes it an addition, an invalid \<^verbatim>\<open>toSquare\<close> a removal. The
  source names its first two fields \<^verbatim>\<open>piece\<close> and \<^verbatim>\<open>color\<close>.
\<close>

record DirtyPiece =
  dpPiece :: Piece
  dpColor :: Color
  fromSquare :: Square
  toSquare :: Square

text \<open>
  The two-element arrays indexed by \<^verbatim>\<open>(uint32_t)perspective\<close> are pairs: the first
  component for \<^verbatim>\<open>Color::White\<close> (0), the second for \<^verbatim>\<open>Color::Black\<close> (1).
\<close>

fun At :: "'b \<times> 'b \<Rightarrow> Color \<Rightarrow> 'b" where
  "At arr White = fst arr"
| "At arr Black = snd arr"

fun SetAt :: "'b \<times> 'b \<Rightarrow> Color \<Rightarrow> 'b \<Rightarrow> 'b \<times> 'b" where
  "SetAt arr White v = (v, snd arr)"
| "SetAt arr Black v = (fst arr, v)"

text \<open>
  The per-node context. \<^verbatim>\<open>numDirtyPieces\<close> is the length of \<^verbatim>\<open>dirtyPieces\<close>; the
  accumulator is a value of the network's own type \<open>'a\<close>; \<^verbatim>\<open>nnScore\<close> is an
  \<^verbatim>\<open>int32_t\<close> that is only stored and compared.
\<close>

record 'a NNEvaluatorContext =
  accumulator :: "'a \<times> 'a"
  accumDirty :: "bool \<times> bool"
  dirtyPieces :: "DirtyPiece list"
  nnScore :: int

record 'a NodeInfo =
  position :: Position
  nnContext :: "'a NNEvaluatorContext"

text \<open>
  The search tree is a strict tree and the evaluator only follows \<^verbatim>\<open>parentNode\<close>, so
  what it can reach from a node is the path to the root: a list that starts with the
  node and ends with the root. A \<^verbatim>\<open>NodeInfo*\<close> into it is an index (0 is the node, 1
  its parent, ...), \<^verbatim>\<open>nullptr\<close> is \<open>None\<close>, and pointer equality is equality of
  indices.
\<close>

type_synonym NodePtr = "nat option"

definition parentNode :: "'a NodeInfo list \<Rightarrow> nat \<Rightarrow> NodePtr" where
  "parentNode path i = (if i + 1 < length path then Some (i + 1) else None)"

text \<open>
  Modelled from the spec: the network is opaque; its accumulator operations and its
  \<^verbatim>\<open>Run\<close> are functions of their arguments (the weights and biases are the network's
  own).
\<close>

record 'a PackedNeuralNetwork =
  AccumulatorRefresh :: "16 word list \<Rightarrow> 'a"
  AccumulatorUpdate :: "'a \<Rightarrow> 16 word list \<Rightarrow> 16 word list \<Rightarrow> 'a"
  Run :: "'a \<Rightarrow> 'a \<Rightarrow> nat \<Rightarrow> int"

text \<open>
  The state the evaluator works on: the path, and a trace of the calls it has made
  (of \<^verbatim>\<open>UpdateAccumulator\<close>, with its previous node, its node and its perspective,
  and of \<^verbatim>\<open>network.Run\<close>), kept so that theorems can say which calls happen.
\<close>

datatype Event = UpdateAccumulatorCall NodePtr nat Color | NetworkRunCall

record 'a SearchState =
  path :: "'a NodeInfo list"
  trace :: "Event list"

subsection \<open>UpdateAccumulator\<close>

text \<open>
  The loop over the dirty pieces of one node: the added and the removed features, each
  index computed against the position of the node being updated.
\<close>

fun addDirtyPieces ::
  "Position \<Rightarrow> Color \<Rightarrow> DirtyPiece list \<Rightarrow> 16 word list \<times> 16 word list
     \<Rightarrow> 16 word list \<times> 16 word list" where
  "addDirtyPieces pos perspective [] featureLists = featureLists"
| "addDirtyPieces pos perspective (dirtyPiece # rest) (addedFeatures, removedFeatures) =
     (let addedFeatures =
            (if IsValid (toSquare dirtyPiece)
             then addedFeatures @
                    [ucast (DirtyPieceToFeatureIndex (dpPiece dirtyPiece) (dpColor dirtyPiece)
                       (toSquare dirtyPiece) pos perspective)]
             else addedFeatures);
          removedFeatures =
            (if IsValid (fromSquare dirtyPiece)
             then removedFeatures @
                    [ucast (DirtyPieceToFeatureIndex (dpPiece dirtyPiece) (dpColor dirtyPiece)
                       (fromSquare dirtyPiece) pos perspective)]
             else removedFeatures)
      in addDirtyPieces pos perspective rest (addedFeatures, removedFeatures))"

text \<open>
  The loop \<^verbatim>\<open>for (nodePtr = &node; nodePtr != prevAccumNode; nodePtr = nodePtr->parentNode)\<close>
  over the rest of the path from \<^verbatim>\<open>nodePtr\<close> (index \<open>i\<close>) on. When the path ends before
  \<^verbatim>\<open>prevAccumNode\<close> is met the source dereferences a null pointer: \<open>None\<close>.
\<close>

fun buildFeatureLists ::
  "Position \<Rightarrow> Color \<Rightarrow> nat \<Rightarrow> nat \<Rightarrow> 'a NodeInfo list \<Rightarrow> 16 word list \<times> 16 word list
     \<Rightarrow> (16 word list \<times> 16 word list) option" where
  "buildFeatureLists pos perspective prevAccumNode i [] featureLists = None"
| "buildFeatureLists pos perspective prevAccumNode i (nodePtr # rest) featureLists =
     (if i = prevAccumNode then Some featureLists
      else buildFeatureLists pos perspective prevAccumNode (i + 1) rest
             (addDirtyPieces pos perspective (dirtyPieces (nnContext nodePtr)) featureLists))"

text \<open>
  The inner loop of the cancellation: the first \<open>j\<close> with
  \<^verbatim>\<open>addedFeatures[i] == removedFeatures[j]\<close>, counted from \<open>j\<close> on.
\<close>

fun findRemoved :: "16 word \<Rightarrow> 16 word list \<Rightarrow> nat \<Rightarrow> nat option" where
  "findRemoved a [] j = None"
| "findRemoved a (r # removedRest) j =
     (if a = r then Some j else findRemoved a removedRest (j + 1))"

text \<open>
  \<^verbatim>\<open>xs[i] = xs[--n]\<close>: the last live entry overwrites entry \<open>i\<close> and the count drops by
  one. The lists are the live parts of the arrays.
\<close>

definition swapRemove :: "nat \<Rightarrow> 16 word list \<Rightarrow> 16 word list" where
  "swapRemove i xs = butlast (xs[i := last xs])"

text \<open>
  The outer loop of the cancellation. On a match the source decrements \<open>i\<close> after the
  overwrite and the loop header increments it again (for \<open>i = 0\<close> through the
  unsigned wrap-around), so the same slot is examined again.
\<close>

function cancelFeatures ::
  "nat \<Rightarrow> 16 word list \<Rightarrow> 16 word list \<Rightarrow> 16 word list \<times> 16 word list" where
  "cancelFeatures i addedFeatures removedFeatures =
     (if i < length addedFeatures
      then (case findRemoved (addedFeatures ! i) removedFeatures 0 of
              None \<Rightarrow> cancelFeatures (i + 1) addedFeatures removedFeatures
            | Some j \<Rightarrow>
                cancelFeatures i (swapRemove i addedFeatures) (swapRemove j removedFeatures))
      else (addedFeatures, removedFeatures))"
  by pat_completeness auto
termination
  by (relation "measure (\<lambda>(i, addedFeatures, removedFeatures). 2 * length addedFeatures - i)")
    (auto simp add: swapRemove_def)

declare cancelFeatures.simps [simp del]

text \<open>
  \<^verbatim>\<open>UpdateAccumulator(network, prevAccumNode, node, perspective)\<close>, with \<open>node\<close> the
  index of the node in the path. The assertions are debug checks; the arrays of 64
  changed features are lists. First the value the accumulator gets: an update of
  (or a copy of) the accumulator of \<^verbatim>\<open>prevAccumNode\<close>, or a refresh.
\<close>

definition NewAccumulator ::
  "'a PackedNeuralNetwork \<Rightarrow> NodePtr \<Rightarrow> nat \<Rightarrow> Color \<Rightarrow> 'a NodeInfo list \<Rightarrow> 'a option" where
  "NewAccumulator network prevAccumNode node perspective nodes =
     (case prevAccumNode of
        Some prev \<Rightarrow>
          (case buildFeatureLists (position (nodes ! node)) perspective prev node
                  (drop node nodes) ([], []) of
             None \<Rightarrow> None
           | Some (addedFeatures, removedFeatures) \<Rightarrow>
               (let (addedFeatures, removedFeatures) =
                      cancelFeatures 0 addedFeatures removedFeatures;
                    prevAccumulator = At (accumulator (nnContext (nodes ! prev))) perspective
                in if addedFeatures = [] \<and> removedFeatures = []
                   then Some prevAccumulator
                   else Some (AccumulatorUpdate network prevAccumulator
                                addedFeatures removedFeatures)))
      | None \<Rightarrow>
          Some (AccumulatorRefresh network
                  (PositionToFeaturesVector (position (nodes ! node)) perspective)))"

text \<open>Then the accumulator is stored in the node and marked as computed.\<close>

definition UpdateAccumulator ::
  "'a PackedNeuralNetwork \<Rightarrow> NodePtr \<Rightarrow> nat \<Rightarrow> Color \<Rightarrow> 'a SearchState
     \<Rightarrow> 'a SearchState option" where
  "UpdateAccumulator network prevAccumNode node perspective st =
     (case NewAccumulator network prevAccumNode node perspective (path st) of
        None \<Rightarrow> None
      | Some acc \<Rightarrow>
          (let theNode = path st ! node;
               ctx = nnContext theNode;
               ctx = ctx \<lparr> accumulator := SetAt (accumulator ctx) perspective acc \<rparr>;
               ctx = ctx \<lparr> accumDirty := SetAt (accumDirty ctx) perspective False \<rparr>
           in Some (st \<lparr> path := (path st)[node := theNode \<lparr> nnContext := ctx \<rparr>],
                         trace := trace st @
                           [UpdateAccumulatorCall prevAccumNode node perspective] \<rparr>)))"

subsection \<open>NNEvaluator::Evaluate on a search node\<close>

definition leftFilesMask :: Bitboard where
  "leftFilesMask = 0x0F0F0F0F0F0F0F0F"

definition kingSideOf :: "Position \<Rightarrow> Color \<Rightarrow> bool" where
  "kingSideOf pos perspective = (king (GetSide pos perspective) AND leftFilesMask \<noteq> 0)"

text \<open>
  The search for the closest node with a valid accumulator, from \<^verbatim>\<open>nodePtr\<close> (index
  \<open>i\<close>) up the rest of the path; the result is \<^verbatim>\<open>prevAccumNode\<close>.
\<close>

fun findPrevAccumNode ::
  "nat \<Rightarrow> bool \<Rightarrow> Color \<Rightarrow> nat \<Rightarrow> nat \<Rightarrow> 'a NodeInfo list \<Rightarrow> NodePtr" where
  "findPrevAccumNode refreshCost kingSideHere perspective updateCost i [] = None"
| "findPrevAccumNode refreshCost kingSideHere perspective updateCost i (nodePtr # rest) =
     (let updateCost = updateCost + length (dirtyPieces (nnContext nodePtr))
      in if updateCost > refreshCost then None
         else if kingSideOf (position nodePtr) perspective \<noteq> kingSideHere then None
         else if \<not> At (accumDirty (nnContext nodePtr)) perspective then Some i
         else findPrevAccumNode refreshCost kingSideHere perspective updateCost (i + 1) rest)"

definition PrevAccumNode :: "'a NodeInfo list \<Rightarrow> Color \<Rightarrow> NodePtr" where
  "PrevAccumNode nodes perspective =
     findPrevAccumNode (GetNumPieces (position (nodes ! 0)))
       (kingSideOf (position (nodes ! 0)) perspective) perspective 0 0 nodes"

text \<open>The body of the loop over the two perspectives; the node is index 0.\<close>

definition ResolveAccumulator ::
  "'a PackedNeuralNetwork \<Rightarrow> Color \<Rightarrow> 'a SearchState \<Rightarrow> 'a SearchState option" where
  "ResolveAccumulator network perspective st =
     (let nodes = path st;
          prevAccumNode = PrevAccumNode nodes perspective
      in if prevAccumNode = Some 0 then Some st
         else if parentNode nodes 0 \<noteq> None \<and> prevAccumNode \<noteq> None \<and>
                 parentNode nodes 0 \<noteq> prevAccumNode \<and>
                 At (accumDirty (nnContext (nodes ! the (parentNode nodes 0)))) perspective
         then (case UpdateAccumulator network prevAccumNode (the (parentNode nodes 0))
                      perspective st of
                 None \<Rightarrow> None
               | Some st \<Rightarrow> UpdateAccumulator network (parentNode nodes 0) 0 perspective st)
         else UpdateAccumulator network prevAccumNode 0 perspective st)"

text \<open>
  \<^verbatim>\<open>NNEvaluator::Evaluate(network, node)\<close> on a non-empty path, built without
  \<^verbatim>\<open>VALIDATE_NETWORK_OUTPUT\<close> and \<^verbatim>\<open>USE_ACCUMULATOR_CACHE\<close> (both are commented
  out). \<^verbatim>\<open>InvalidValue\<close> is declared outside the sources and is a parameter. The
  result is the returned score and the state left behind.
\<close>

definition Evaluate ::
  "int \<Rightarrow> 'a PackedNeuralNetwork \<Rightarrow> 'a SearchState \<Rightarrow> (int \<times> 'a SearchState) option" where
  "Evaluate InvalidValue network st =
     (let node = path st ! 0
      in if nnScore (nnContext node) \<noteq> InvalidValue
         then Some (nnScore (nnContext node), st)
         else (case ResolveAccumulator network White st of
                 None \<Rightarrow> None
               | Some st \<Rightarrow>
                   (case ResolveAccumulator network Black st of
                      None \<Rightarrow> None
                    | Some st \<Rightarrow>
                        (let node = path st ! 0;
                             ourAccumulator =
                               At (accumulator (nnContext node))
                                  (GetSideToMove (position node));
                             theirAccumulator =
                               At (accumulator (nnContext node))
                                  (GetOppositeColor (GetSideToMove (position node)));
                             nnOutput = Run network ourAccumulator theirAccumulator
                                          (GetNetworkVariant (position node));
                             ctx = (nnContext node) \<lparr> nnScore := nnOutput \<rparr>
                         in Some (nnOutput,
                                  st \<lparr> path := (path st)[0 := node \<lparr> nnContext := ctx \<rparr>],
                                       trace := trace st @ [NetworkRunCall] \<rparr>)))))"

subsection \<open>Concrete search paths\<close>

text \<open>
  A network whose accumulator is the sorted list of the active features, so that
  an update can be compared with a refresh.
\<close>

definition ListNetwork :: "16 word list PackedNeuralNetwork" where
  "ListNetwork =
     \<lparr> AccumulatorRefresh = (\<lambda>features. sort features),
       AccumulatorUpdate = (\<lambda>prev added removed. sort (foldr remove1 removed (prev @ added))),
       Run = (\<lambda>ours theirs variant. int (length ours) - int (length theirs) + int variant) \<rparr>"

text \<open>
  From the position with the White king on a1, a White pawn on a2 and the Black king
  on h8: the position after the pawn move a2-a4, and the position after the reply
  Kh8-g8.
\<close>

definition PositionA4 :: Position where
  "PositionA4 = KingsApartPosition
     \<lparr> Whites := (Whites KingsApartPosition) \<lparr> pawns := 0x01000000 \<rparr>,
       sideToMove := Black \<rparr>"

definition PositionA4Kg8 :: Position where
  "PositionA4Kg8 = PositionA4
     \<lparr> Blacks := (Blacks PositionA4) \<lparr> king := 0x4000000000000000 \<rparr>,
       sideToMove := White \<rparr>"

text \<open>A node whose accumulators are not computed and that has no cached score.\<close>

definition DirtyNode :: "int \<Rightarrow> Position \<Rightarrow> DirtyPiece list \<Rightarrow> 16 word list NodeInfo" where
  "DirtyNode InvalidValue pos dirty =
     \<lparr> position = pos,
       nnContext = \<lparr> accumulator = ([], []), accumDirty = (True, True), dirtyPieces = dirty,
                     nnScore = InvalidValue \<rparr> \<rparr>"

text \<open>A node whose accumulators are those of a full refresh.\<close>

definition CleanNode :: "int \<Rightarrow> Position \<Rightarrow> DirtyPiece list \<Rightarrow> 16 word list NodeInfo" where
  "CleanNode InvalidValue pos dirty =
     \<lparr> position = pos,
       nnContext =
         \<lparr> accumulator = (AccumulatorRefresh ListNetwork (PositionToFeaturesVector pos White),
                          AccumulatorRefresh ListNetwork (PositionToFeaturesVector pos Black)),
           accumDirty = (False, False), dirtyPieces = dirty, nnScore = InvalidValue \<rparr> \<rparr>"

definition MoveA4 :: DirtyPiece where
  "MoveA4 = \<lparr> dpPiece = Pawn, dpColor = White, fromSquare = 8, toSquare = 24 \<rparr>"

definition MoveKg8 :: DirtyPiece where
  "MoveKg8 = \<lparr> dpPiece = King, dpColor = Black, fromSquare = 63, toSquare = 62 \<rparr>"

text \<open>
  The node after a2-a4 below the root, neither with a computed accumulator: the
  first evaluation of a search.
\<close>

definition FreshPath :: "16 word list SearchState" where
  "FreshPath =
     \<lparr> path = [DirtyNode 2147483647 PositionA4 [MoveA4], DirtyNode 2147483647 KingsApartPosition []],
       trace = [] \<rparr>"

text \<open>
  The node after a2-a4 Kh8-g8, its parent after a2-a4 and the root; only the root has
  its accumulators.
\<close>

definition DeepPath :: "16 word list SearchState" where
  "DeepPath =
     \<lparr> path = [DirtyNode 2147483647 PositionA4Kg8 [MoveKg8],
               DirtyNode 2147483647 PositionA4 [MoveA4],
               CleanNode 2147483647 KingsApartPosition []],
       trace = [] \<rparr>"

text \<open>A node with a cached score of 17.\<close>

definition CachedPath :: "16 word list SearchState" where
  "CachedPath =
     \<lparr> path = [(DirtyNode 2147483647 PositionA4 [MoveA4])
                 \<lparr> nnContext := (nnContext (DirtyNode 2147483647 PositionA4 [MoveA4]))
                                   \<lparr> nnScore := 17 \<rparr> \<rparr>,
               DirtyNode 2147483647 KingsApartPosition []],
       trace = [] \<rparr>"

text \<open>
  The condition of the two-stage update in the words of the spec: the parent of the
  node is non-null, different from \<^verbatim>\<open>prev_accum_node\<close>, and dirty.
\<close>

definition TwoStageAsStated :: "'a NodeInfo list \<Rightarrow> Color \<Rightarrow> NodePtr \<Rightarrow> bool" where
  "TwoStageAsStated nodes perspective prevAccumNode =
     (parentNode nodes 0 \<noteq> None \<and> parentNode nodes 0 \<noteq> prevAccumNode \<and>
      At (accumDirty (nnContext (nodes ! the (parentNode nodes 0)))) perspective)"

section \<open>The training data loader\<close>

text \<open>
  Modelled from the spec: \<^verbatim>\<open>PositionEntry\<close> (declared outside the sources) is a
  32-byte record with a packed position, a score (\<^verbatim>\<open>int16_t\<close>) and a game result
  (\<^verbatim>\<open>uint8_t\<close>); the packed position holds the occupancy bitboard and the two move
  counters. The loader only compares these numbers or converts them to \<^verbatim>\<open>float\<close>, so
  they are \<open>int\<close> and \<open>nat\<close> here. The source names the first field \<^verbatim>\<open>pos\<close>.
\<close>

record PackedPosition =
  occupied :: Bitboard
  halfMoveCount :: nat
  moveCount :: nat

record PositionEntry =
  packedPos :: PackedPosition
  score :: int
  wdlScore :: nat

text \<open>
  Modelled from the spec: \<^verbatim>\<open>FileInputStream\<close> (declared outside the sources). A file
  is its complete 32-byte records followed by fewer than 32 further bytes; the stream
  has a cursor, a byte offset. \<^verbatim>\<open>Read\<close> of one record succeeds when a complete record
  starts at the cursor, and then moves the cursor past it; a failed read leaves the
  stream as it is. For a stream that is not open \<^verbatim>\<open>GetSize\<close> is what the fields say.
  The loader only ever sets the cursor to a multiple of 32.
\<close>

record FileInputStream =
  IsOpen :: bool
  records :: "PositionEntry list"
  tailBytes :: nat
  GetPosition :: nat

definition sizeofPositionEntry :: nat where
  "sizeofPositionEntry = 32"

definition GetSize :: "FileInputStream \<Rightarrow> nat" where
  "GetSize fileStream = sizeofPositionEntry * length (records fileStream) + tailBytes fileStream"

definition SetPosition :: "nat \<Rightarrow> FileInputStream \<Rightarrow> FileInputStream" where
  "SetPosition offset fileStream = fileStream \<lparr> GetPosition := offset \<rparr>"

definition Read :: "FileInputStream \<Rightarrow> PositionEntry option \<times> FileInputStream" where
  "Read fileStream =
     (let offset = GetPosition fileStream
      in if IsOpen fileStream \<and> offset mod sizeofPositionEntry = 0 \<and>
            offset div sizeofPositionEntry < length (records fileStream)
         then (Some (records fileStream ! (offset div sizeofPositionEntry)),
               fileStream \<lparr> GetPosition := offset + sizeofPositionEntry \<rparr>)
         else (None, fileStream))"

text \<open>
  The \<^verbatim>\<open>float\<close> and \<^verbatim>\<open>double\<close> values of the loader are real numbers here. What the
  loader needs from outside is a parameter: the random generator (its state is of
  type \<open>'g\<close>; each distribution maps its parameters and a state to a draw and the
  next state), the constants \<^verbatim>\<open>CheckmateValue\<close> and \<^verbatim>\<open>Game::Score\<close>, and the functions
  \<^verbatim>\<open>UnpackPosition\<close>, \<^verbatim>\<open>GetKingSideAndBucket\<close>, \<^verbatim>\<open>EvalToWinProbability\<close>,
  \<^verbatim>\<open>EvalToExpectedGameScore\<close> and the static \<^verbatim>\<open>Evaluate\<close>, all declared outside the
  sources.
\<close>

record 'g Environment =
  uniformInt :: "nat \<Rightarrow> nat \<Rightarrow> 'g \<Rightarrow> nat \<times> 'g"
  uniformReal :: "real \<Rightarrow> real \<Rightarrow> 'g \<Rightarrow> real \<times> 'g"
  bernoulli :: "real \<Rightarrow> 'g \<Rightarrow> bool \<times> 'g"
  CheckmateValue :: int
  ScoreDraw :: nat
  ScoreWhiteWins :: nat
  ScoreBlackWins :: nat
  UnpackPosition :: "PackedPosition \<Rightarrow> Position \<Rightarrow> bool \<times> Position"
  GetKingSideAndBucket :: "Square \<Rightarrow> nat \<times> nat"
  EvalToWinProbability :: "real \<Rightarrow> nat \<Rightarrow> real"
  EvalToExpectedGameScore :: "real \<Rightarrow> real"
  StaticEvaluate :: "Position \<Rightarrow> int"

text \<open>
  Modelled from the spec: \<^verbatim>\<open>InputFileContext\<close> and \<^verbatim>\<open>TrainingDataLoader\<close> are declared
  outside the sources, with the members their functions use.
\<close>

record InputFileContext =
  fileStream :: FileInputStream
  fileName :: string
  fileSize :: nat
  skippingProbability :: real

record TrainingDataLoader =
  mContexts :: "InputFileContext list"
  mCDF :: "real list"

subsection \<open>TrainingDataLoader::Init\<close>

text \<open>
  The directory is the list of its files in the order the iterator yields them, each
  with the stream that opening it gives. The loop carries the loader, \<^verbatim>\<open>totalDataSize\<close>
  (a \<^verbatim>\<open>uint64_t\<close> that real file sizes do not overflow) and the generator.
\<close>

fun InitLoop ::
  "'g Environment \<Rightarrow> (string \<times> FileInputStream) list \<Rightarrow> TrainingDataLoader \<times> nat \<times> 'g
     \<Rightarrow> TrainingDataLoader \<times> nat \<times> 'g" where
  "InitLoop env [] st = st"
| "InitLoop env ((name, stream) # rest) (loader, totalDataSize, gen) =
     (let fileSize = GetSize stream;
          totalDataSize = totalDataSize + fileSize
      in if IsOpen stream \<and> fileSize > sizeofPositionEntry
         then (let numEntries = fileSize div sizeofPositionEntry;
                   (entryIndex, gen) = uniformInt env 0 (numEntries - 1) gen;
                   stream = SetPosition (entryIndex * sizeofPositionEntry) stream;
                   (skipping, gen) = uniformReal env 0 (1 / 10) gen;
                   ctx = \<lparr> fileStream = stream, fileName = name, fileSize = fileSize,
                           skippingProbability = skipping \<rparr>;
                   loader = loader \<lparr> mContexts := mContexts loader @ [ctx] \<rparr>;
                   loader = loader \<lparr> mCDF := mCDF loader @ [real totalDataSize] \<rparr>
               in InitLoop env rest (loader, totalDataSize, gen))
         else InitLoop env rest (loader, totalDataSize, gen))"

definition Init ::
  "'g Environment \<Rightarrow> 'g \<Rightarrow> (string \<times> FileInputStream) list \<Rightarrow> TrainingDataLoader
     \<Rightarrow> bool \<times> TrainingDataLoader \<times> 'g" where
  "Init env gen directory loader =
     (let totalDataSize = 0;
          loader = loader \<lparr> mCDF := mCDF loader @ [0] \<rparr>;
          (loader, totalDataSize, gen) = InitLoop env directory (loader, totalDataSize, gen);
          loader = (if totalDataSize > 0
                    then loader \<lparr> mCDF := map (\<lambda>v. v / real totalDataSize) (mCDF loader) \<rparr>
                    else loader)
      in (mContexts loader \<noteq> [], loader, gen))"

text \<open>A loader before \<^verbatim>\<open>Init\<close>: no contexts, an empty CDF.\<close>

definition NewLoader :: TrainingDataLoader where
  "NewLoader = \<lparr> mContexts = [], mCDF = [] \<rparr>"

subsection \<open>TrainingDataLoader::SampleInputFileIndex\<close>

text \<open>
  The binary search, on \<^verbatim>\<open>uint32_t\<close> values with the wrap-around of \<^verbatim>\<open>low + high\<close> and
  of \<^verbatim>\<open>mid + 1\<close> written out. Where the sum wraps the loop need not end, so the
  result is optional. The loader keeps \<open>length mCDF = length mContexts + 1\<close>, so
  \<open>mid < high\<close> is an index of the CDF.
\<close>

partial_function (option) binarySearch :: "real list \<Rightarrow> real \<Rightarrow> nat \<Rightarrow> nat \<Rightarrow> nat option" where
  "binarySearch cdf u low high =
     (if low < high
      then (if u \<ge> cdf ! (((low + high) mod 2 ^ 32) div 2)
            then binarySearch cdf u (((((low + high) mod 2 ^ 32) div 2) + 1) mod 2 ^ 32) high
            else binarySearch cdf u low (((low + high) mod 2 ^ 32) div 2))
      else Some low)"

declare binarySearch.simps [code]

definition SampleInputFileIndex :: "TrainingDataLoader \<Rightarrow> real \<Rightarrow> nat option" where
  "SampleInputFileIndex loader u =
     (case binarySearch (mCDF loader) u 0 (length (mContexts loader) mod 2 ^ 32) of
        None \<Rightarrow> None
      | Some low \<Rightarrow> Some ((low + 2 ^ 32 - 1) mod 2 ^ 32))"

subsection \<open>InputFileContext::FetchNextPosition\<close>

definition Sqr :: "real \<Rightarrow> real" where
  "Sqr x = x * x"

text \<open>
  The filters applied to an entry that was read: the body of the loop after the
  read. The result says whether the entry is returned (\<open>True\<close>) or the loop continues
  (\<open>False\<close>), with the generator and \<^verbatim>\<open>outPosition\<close> as they are then. \<^verbatim>\<open>VERIFY\<close> and
  \<^verbatim>\<open>ASSERT\<close> are debug checks.
\<close>

definition AcceptEntry ::
  "'g Environment \<Rightarrow> InputFileContext \<Rightarrow> int \<Rightarrow> PositionEntry \<Rightarrow> 'g \<Rightarrow> Position
     \<Rightarrow> bool \<times> 'g \<times> Position" where
  "AcceptEntry env ctx kingBucket outEntry gen outPosition =
     (if score outEntry \<ge> CheckmateValue env \<or> score outEntry \<le> - CheckmateValue env
      then (False, gen, outPosition)
      else
      let (skip, gen) = bernoulli env (skippingProbability ctx) gen in
      if skip then (False, gen, outPosition)
      else
      let (skip, gen) =
            (if wdlScore outEntry = ScoreDraw env
             then bernoulli env (real (halfMoveCount (packedPos outEntry)) / 200) gen
             else (False, gen)) in
      if skip then (False, gen, outPosition)
      else
      let maxEarlyMoveCount = 10;
          (skip, gen) =
            (if moveCount (packedPos outEntry) < maxEarlyMoveCount
             then bernoulli env
                    (0.5 * real (maxEarlyMoveCount - moveCount (packedPos outEntry) - 1)
                       / real maxEarlyMoveCount) gen
             else (False, gen)) in
      if skip then (False, gen, outPosition)
      else
      let numPieces = int (Count (occupied (packedPos outEntry))) in
      if numPieces \<le> 3 then (False, gen, outPosition)
      else
      let (skip, gen) = (if numPieces \<le> 4 then bernoulli env (9 / 10) gen else (False, gen)) in
      if skip then (False, gen, outPosition)
      else
      let pieceCountSkipProb = Sqr (real_of_int (numPieces - 26) / 25);
          (skip, gen) =
            (if pieceCountSkipProb > 0 then bernoulli env pieceCountSkipProb gen
             else (False, gen)) in
      if skip then (False, gen, outPosition)
      else
      let (unpacked, outPosition) = UnpackPosition env (packedPos outEntry) outPosition;
          (skip, gen) =
            (if kingBucket \<ge> 0
             then (let (whiteKingSide, whiteKingBucket) =
                         GetKingSideAndBucket env (GetKingSquare (Whites outPosition));
                       (blackKingSide, blackKingBucket) =
                         GetKingSideAndBucket env
                           (FlippedRank (GetKingSquare (Blacks outPosition)))
                   in (int whiteKingBucket \<noteq> kingBucket \<and> int blackKingBucket \<noteq> kingBucket,
                       gen))
             else (let whiteKingProb =
                         1 - real (unat (Rank (GetKingSquare (Whites outPosition)))) / 7;
                       blackKingProb =
                         real (unat (Rank (GetKingSquare (Blacks outPosition)))) / 7
                   in bernoulli env (0.25 * Sqr (min whiteKingProb blackKingProb)) gen)) in
      if skip then (False, gen, outPosition)
      else
      let ply = 2 * moveCount (packedPos outEntry);
          w = EvalToWinProbability env (real_of_int (score outEntry) / 100) ply;
          l = EvalToWinProbability env (real_of_int (- score outEntry) / 100) ply;
          d = 1 - w - l;
          prob = d;
          prob = (if wdlScore outEntry = ScoreWhiteWins env then w else prob);
          prob = (if wdlScore outEntry = ScoreBlackWins env then l else prob);
          maxSkippingProb = 0.25;
          (skip, gen) = bernoulli env (maxSkippingProb * (1 - prob)) gen in
      if skip then (False, gen, outPosition)
      else
      let staticEval = StaticEvaluate env outPosition;
          evalScore = EvalToExpectedGameScore env (real_of_int staticEval / 100);
          searchScore = EvalToExpectedGameScore env (real_of_int (score outEntry) / 100);
          prob = 4 * (searchScore - 0.5) * (searchScore - 0.5)
                   * max 0 (1 - 6 * \<bar>evalScore - searchScore\<bar>);
          (skip, gen) = bernoulli env prob gen in
      if skip then (False, gen, outPosition)
      else (True, gen, outPosition))"

text \<open>
  One read of the loop, with the rewind at the end of the file: \<open>None\<close> when the
  function returns false, else the entry read and the stream after the read.
\<close>

definition ReadNext :: "FileInputStream \<Rightarrow> (PositionEntry \<times> FileInputStream) option" where
  "ReadNext stream =
     (case Read stream of
        (Some entry, stream) \<Rightarrow> Some (entry, stream)
      | (None, stream) \<Rightarrow>
          (if GetPosition stream > 0
           then (case Read (SetPosition 0 stream) of
                   (Some entry, stream) \<Rightarrow> Some (entry, stream)
                 | (None, stream) \<Rightarrow> None)
           else None))"

text \<open>
  The loop \<^verbatim>\<open>for (;;)\<close> can run for ever (a file whose every entry is skipped), so it
  takes fuel, one unit for each read: \<open>None\<close> when the fuel runs out, else the returned
  flag with the context, the generator, \<^verbatim>\<open>outEntry\<close> and \<^verbatim>\<open>outPosition\<close>. When the
  function returns false the source leaves the stream and \<^verbatim>\<open>outEntry\<close> in a state the
  caller does not use; the model leaves them as before the failed read.
\<close>

fun FetchNextPosition ::
  "nat \<Rightarrow> 'g Environment \<Rightarrow> int \<Rightarrow> InputFileContext \<Rightarrow> 'g \<Rightarrow> PositionEntry \<Rightarrow> Position
     \<Rightarrow> (bool \<times> InputFileContext \<times> 'g \<times> PositionEntry \<times> Position) option" where
  "FetchNextPosition 0 env kingBucket ctx gen outEntry outPosition = None"
| "FetchNextPosition (Suc fuel) env kingBucket ctx gen outEntry outPosition =
     (case ReadNext (fileStream ctx) of
        None \<Rightarrow> Some (False, ctx, gen, outEntry, outPosition)
      | Some (outEntry, stream) \<Rightarrow>
          (let ctx = ctx \<lparr> fileStream := stream \<rparr>
           in case AcceptEntry env ctx kingBucket outEntry gen outPosition of
                (True, gen, outPosition) \<Rightarrow> Some (True, ctx, gen, outEntry, outPosition)
              | (False, gen, outPosition) \<Rightarrow>
                  FetchNextPosition fuel env kingBucket ctx gen outEntry outPosition))"

subsection \<open>Concrete loaders\<close>

text \<open>
  An environment whose generator has no state and whose draws are the lower bound
  and \<open>False\<close>, so that nothing is skipped at random, with the checkmate value 32000.
\<close>

definition PlainEnvironment :: "unit Environment" where
  "PlainEnvironment =
     \<lparr> uniformInt = (\<lambda>lo hi gen. (lo, gen)),
       uniformReal = (\<lambda>lo hi gen. (lo, gen)),
       bernoulli = (\<lambda>p gen. (False, gen)),
       CheckmateValue = 32000,
       ScoreDraw = 1, ScoreWhiteWins = 2, ScoreBlackWins = 0,
       UnpackPosition = (\<lambda>packed outPosition. (True, KingsApartPosition)),
       GetKingSideAndBucket = (\<lambda>sq. (0, 0)),
       EvalToWinProbability = (\<lambda>eval ply. 1 / 3),
       EvalToExpectedGameScore = (\<lambda>eval. 1 / 2),
       StaticEvaluate = (\<lambda>outPosition. 0) \<rparr>"

definition SampleEntry :: "int \<Rightarrow> PositionEntry" where
  "SampleEntry s =
     \<lparr> packedPos = \<lparr> occupied = 0x800000000001010F, halfMoveCount = 0, moveCount = 30 \<rparr>,
       score = s, wdlScore = 2 \<rparr>"

text \<open>An open file of the given number of records and further bytes.\<close>

definition SampleFile :: "nat \<Rightarrow> nat \<Rightarrow> FileInputStream" where
  "SampleFile n tail =
     \<lparr> IsOpen = True, records = replicate n (SampleEntry 25), tailBytes = tail,
       GetPosition = 0 \<rparr>"

text \<open>
  Scenario E6: three files of 100, 300 and 600 bytes, and the loader that \<^verbatim>\<open>Init\<close>
  makes of them.
\<close>

definition ThreeFiles :: "(string \<times> FileInputStream) list" where
  "ThreeFiles = [(''a'', SampleFile 3 4), (''b'', SampleFile 9 12), (''c'', SampleFile 18 24)]"

definition ThreeFilesLoader :: TrainingDataLoader where
  "ThreeFilesLoader = fst (snd (Init PlainEnvironment () ThreeFiles NewLoader))"

text \<open>A directory with a file of 100 bytes followed by a file of 20 bytes.\<close>

definition SmallLastFile :: "(string \<times> FileInputStream) list" where
  "SmallLastFile = [(''a'', SampleFile 3 4), (''b'', SampleFile 0 20)]"

text \<open>A file that holds an entry with a mate score and then an ordinary entry.\<close>

definition MateFirstContext :: InputFileContext where
  "MateFirstContext =
     \<lparr> fileStream = \<lparr> IsOpen = True, records = [SampleEntry 32000, SampleEntry 25],
                       tailBytes = 0, GetPosition = 0 \<rparr>,
       fileName = ''a'', fileSize = 64, skippingProbability = 0 \<rparr>"

text \<open>
  The file CDF as the spec defines it: one entry more than there are files,
  non-decreasing, the first entry 0 and the last 1.
\<close>

definition IsFileCDF :: "TrainingDataLoader \<Rightarrow> bool" where
  "IsFileCDF loader =
     (length (mCDF loader) = length (mContexts loader) + 1 \<and> sorted (mCDF loader) \<and>
      mCDF loader ! 0 = 0 \<and> last (mCDF loader) = 1)"

section \<open>Properties of the feature encoder\<close>

lemma writePieceFeatures_eq:
  "writePieceFeatures bb m (xs, n) = (xs @ Segment n m bb, n + 64)"
  by (simp add: writePieceFeatures_def Segment_def)

lemma FlipSetup_eq:
  "FlipSetup pos p =
     (GetKingSquare (GetSide pos p) XOR FlipMask pos p,
      GetKingSquare (GetSide pos (GetOppositeColor p)) XOR FlipMask pos p,
      ucast (FlipMask pos p))"
  by (simp add: FlipSetup_def FlipMask_def Let_def FlippedFile_def FlippedRank_def
      xor.assoc)

lemma features_eq:
  "PositionToFeaturesVector pos p =
     (let whites = GetSide pos p; blacks = GetSide pos (GetOppositeColor p);
          m = ucast (FlipMask pos p);
          wk = GetKingSquare whites XOR FlipMask pos p;
          bk = GetKingSquare blacks XOR FlipMask pos p
      in Segment 0 m (pawns whites) @ Segment 64 m (knights whites)
         @ Segment 128 m (bishops whites) @ Segment 192 m (rooks whites)
         @ Segment 256 m (queens whites)
         @ [ucast (320 + (4 * ucast (Rank wk) + ucast (File wk) :: 32 word))]
         @ Segment 352 m (pawns blacks) @ Segment 416 m (knights blacks)
         @ Segment 480 m (bishops blacks) @ Segment 544 m (rooks blacks)
         @ Segment 608 m (queens blacks)
         @ [ucast (672 + (ucast (Index bk) :: 32 word))])"
  by (simp add: PositionToFeaturesVector_def FlipSetup_eq writePieceFeatures_eq Let_def)

lemma all64: "(\<forall>k<64::nat. P k) = list_all P [0..<64]"
  by (auto simp: list_all_iff)

lemma sq_of_nat: 
  assumes "(sq :: 8 word) < 64" shows "\<exists>k<64. sq = of_nat k"
proof -
  have "unat sq < 64" using assms by (simp add: word_less_nat_alt)
  moreover have "sq = of_nat (unat sq)" by simp
  ultimately show ?thesis by blast
qed

lemma xor_valid_nat:
  "\<forall>k<64::nat. ((of_nat k :: 8 word) XOR 0 < 64) \<and> ((of_nat k :: 8 word) XOR 7 < 64)
     \<and> ((of_nat k :: 8 word) XOR 56 < 64) \<and> ((of_nat k :: 8 word) XOR 63 < 64)"
  unfolding all64 by code_simp

lemma FlipMask_cases: "FlipMask pos p \<in> {0, 7, 56, 63}"
  by (simp add: FlipMask_def)

lemma xor_FlipMask_valid: "sq < 64 \<Longrightarrow> sq XOR FlipMask pos p < 64"
  using xor_valid_nat FlipMask_cases [of pos p] sq_of_nat [of sq] by auto

lemma Iterate_less: "i \<in> set (Iterate bb) \<Longrightarrow> i < 64"
  by (simp add: Iterate_def)

lemma ucast_sq_xor:
  assumes "i < 64"
  shows "(of_nat i :: 32 word) XOR ucast (M :: 8 word) = ucast ((of_nat i :: 8 word) XOR M)"
proof -
  have "take_bit 8 i = i" using assms by (simp add: take_bit_nat_eq_self)
  then have "(ucast (of_nat i :: 8 word) :: 32 word) = of_nat i"
    by (simp add: unsigned_of_nat)
  then show ?thesis by (simp add: unsigned_xor_eq)
qed

lemma delta_eq:
  "DirtyPieceToFeatureIndex piece c sq pos p =
     (let rel = sq XOR FlipMask pos p in
      (if piece = King \<and> c = p
       then 320 + (4 * ucast (Rank rel) + ucast (File rel))
       else (PieceValue piece - 1) * 64 + ucast rel) + (if c \<noteq> p then 352 else 0))"
proof -
  have a: "(sq XOR 56) XOR 7 = sq XOR 63" by (simp add: xor.assoc)
  show ?thesis
    by (simp add: DirtyPieceToFeatureIndex_def FlipMask_def Let_def FlippedFile_def
        FlippedRank_def Index_def a)
qed

lemma Segment_delta:
  assumes "piece \<noteq> King \<or> c \<noteq> p"
  shows "Segment ((PieceValue piece - 1) * 64 + (if c \<noteq> p then 352 else 0))
           (ucast (FlipMask pos p)) bb
         = map (\<lambda>i. FeatureOf pos p (piece, c, of_nat i)) (Iterate bb)"
  unfolding Segment_def
proof (rule map_cong [OF refl])
  fix i assume "i \<in> set (Iterate bb)"
  then have "i < 64" by (rule Iterate_less)
  then show "(ucast ((PieceValue piece - 1) * 64 + (if c \<noteq> p then 352 else 0)
                 + ((of_nat i :: 32 word) XOR ucast (FlipMask pos p))) :: 16 word)
             = FeatureOf pos p (piece, c, of_nat i)"
    using assms by (auto simp add: FeatureOf_def delta_eq Let_def ucast_sq_xor add.assoc)
qed

lemma Count_one: "Count bb = 1 \<Longrightarrow> \<exists>k<64. Iterate bb = [k]"
proof -
  assume "Count bb = 1"
  then have "length (Iterate bb) = 1" by (simp add: Count_def)
  then obtain k where k: "Iterate bb = [k]"
    by (cases "Iterate bb") auto
  then have "k \<in> set (Iterate bb)" by simp
  then have "k < 64" by (rule Iterate_less)
  with k show ?thesis by blast
qed

lemma HasKings_side: "HasKings pos \<Longrightarrow> Count (king (GetSide pos c)) = 1"
  by (cases c) (simp_all add: HasKings_def)

lemma king_single:
  assumes "HasKings pos"
  shows "\<exists>k<64. Iterate (king (GetSide pos c)) = [k] \<and> GetKingSquare (GetSide pos c) = of_nat k"
proof -
  from Count_one [OF HasKings_side [OF assms, of c]]
  obtain k where "k < 64" "Iterate (king (GetSide pos c)) = [k]" by blast
  then show ?thesis by (auto simp: GetKingSquare_def)
qed

lemma opp_neq: "GetOppositeColor p \<noteq> p"
  by (cases p) simp_all

lemma features_map:
  assumes "HasKings pos"
  shows "PositionToFeaturesVector pos p = map (FeatureOf pos p) (PieceList pos p)"
proof -
  obtain k where k: "Iterate (king (GetSide pos p)) = [k]"
      "GetKingSquare (GetSide pos p) = of_nat k"
    using king_single [OF assms, of p] by blast
  obtain j where j: "Iterate (king (GetSide pos (GetOppositeColor p))) = [j]"
      "GetKingSquare (GetSide pos (GetOppositeColor p)) = of_nat j"
    using king_single [OF assms, of "GetOppositeColor p"] by blast
  have own: "\<And>piece bb. piece \<noteq> King \<Longrightarrow>
      map (\<lambda>i. FeatureOf pos p (piece, p, of_nat i)) (Iterate bb)
      = Segment ((PieceValue piece - 1) * 64) (ucast (FlipMask pos p)) bb"
    using Segment_delta [of _ p p pos] by simp
  have opp: "\<And>piece bb.
      map (\<lambda>i. FeatureOf pos p (piece, GetOppositeColor p, of_nat i)) (Iterate bb)
      = Segment ((PieceValue piece - 1) * 64 + 352) (ucast (FlipMask pos p)) bb"
    using Segment_delta [of _ "GetOppositeColor p" p pos] by (simp add: opp_neq)
  have wk: "FeatureOf pos p (King, p, of_nat k) =
      ucast (320 + (4 * ucast (Rank (of_nat k XOR FlipMask pos p))
                    + ucast (File (of_nat k XOR FlipMask pos p)) :: 32 word))"
    by (simp add: FeatureOf_def delta_eq Let_def)
  have bk: "FeatureOf pos p (King, GetOppositeColor p, of_nat j) =
      ucast (672 + (ucast (Index (of_nat j XOR FlipMask pos p)) :: 32 word))"
    by (simp add: FeatureOf_def delta_eq Let_def opp_neq Index_def)
  show ?thesis
    by (simp add: features_eq Let_def PieceList_def SidePieces_def k j own opp wk bk comp_def)
qed

lemma enum_features:
  "map (\<lambda>(piece, own, rel). unat (ucast (FeatureIndexOf piece own rel) :: 16 word)) ValidTriples
   = [0..<736]"
  by code_simp

lemma all_in_range:
  "list_all (\<lambda>piece. list_all (\<lambda>own. list_all (\<lambda>k. unat (FeatureIndexOf piece own (of_nat k)) < 736) [0..<64]) [True, False]) [Pawn, Knight, Bishop, Rook, Queen, King]"
  by code_simp

lemma unat_sq: "k < 64 \<Longrightarrow> unat (of_nat k :: 8 word) = k"
  by (simp add: unat_of_nat)

lemma king_slot_nat:
  "\<forall>k<64::nat. (of_nat k :: 8 word) mod 8 < 4 \<longrightarrow> 
      (of_nat k :: 8 word) = of_nat (8 * (k div 8) + k mod 8) \<and> k div 8 < 8 \<and> k mod 8 < 4"
  unfolding all64 by code_simp

lemma king_slot_valid:
  "list_all (\<lambda>r. list_all (\<lambda>f. (of_nat (8 * r + f) :: 8 word) < 64 \<and> (of_nat (8 * r + f) :: 8 word) mod 8 < 4) [0..<4]) [0..<8]"
  by code_simp

lemma mem_ValidTriples:
  "(piece, own, rel) \<in> set ValidTriples \<longleftrightarrow> rel < 64 \<and> (piece = King \<and> own \<longrightarrow> File rel < 4)"
proof
  assume "(piece, own, rel) \<in> set ValidTriples"
  then show "rel < 64 \<and> (piece = King \<and> own \<longrightarrow> File rel < 4)"
    using king_slot_valid
    apply (auto simp add: ValidTriples_def File_def list_all_iff word_less_nat_alt unat_sq)
    done
next
  assume a: "rel < 64 \<and> (piece = King \<and> own \<longrightarrow> File rel < 4)"
  then obtain k where k: "k < 64" "rel = of_nat k" using sq_of_nat by blast
  show "(piece, own, rel) \<in> set ValidTriples"
  proof (cases "piece = King \<and> own")
    case True
    with a k have "(of_nat k :: 8 word) mod 8 < 4" by (simp add: File_def)
    with king_slot_nat k have "rel = of_nat (8 * (k div 8) + k mod 8) \<and> k div 8 < 8 \<and> k mod 8 < 4"
      by blast
    then have "(King, True, rel) \<in> (\<Union>r\<in>{0..<8}. (\<lambda>f. (King, True, of_nat (8 * r + f) :: 8 word)) ` {0..<4})"
      by (metis (no_types, lifting) UN_I atLeastLessThan_iff imageI zero_le)
    with True show ?thesis
      by (simp add: ValidTriples_def)
  next
    case False
    then show ?thesis using k
      by (cases piece; cases own) (auto simp add: ValidTriples_def)
  qed
qed

lemma delta_FeatureIndexOf:
  "DirtyPieceToFeatureIndex piece c sq pos p = FeatureIndexOf piece (c = p) (sq XOR FlipMask pos p)"
  by (simp add: delta_eq FeatureIndexOf_def Let_def)

lemma king_file_nat:
  "\<forall>k<64::nat.
     File ((of_nat k :: 8 word) XOR ((if File (of_nat k) \<ge> 4 then 7 else 0) XOR 0)) < 4 \<and>
     File ((of_nat k :: 8 word) XOR ((if File (of_nat k) \<ge> 4 then 7 else 0) XOR 56)) < 4"
  unfolding all64 File_def by code_simp

lemma own_king_file:
  assumes "HasKings pos"
  shows "File (GetKingSquare (GetSide pos p) XOR FlipMask pos p) < 4"
proof -
  obtain k where k: "k < 64" "GetKingSquare (GetSide pos p) = of_nat k"
    using king_single [OF assms, of p] by blast
  show ?thesis using king_file_nat k by (simp add: FlipMask_def)
qed

lemma mem_Iterate: "i \<in> set (Iterate bb) \<longleftrightarrow> i < 64 \<and> bit bb i"
  by (auto simp: Iterate_def)

lemma PieceOn_iff:
  "PieceOn pos piece c sq \<longleftrightarrow>
     (\<exists>i \<in> set (Iterate (PieceBitboard (GetSide pos c) piece)). sq = of_nat i)"
proof
  assume "PieceOn pos piece c sq"
  then have "unat sq < 64" "bit (PieceBitboard (GetSide pos c) piece) (unat sq)"
    by (simp_all add: PieceOn_def IsValid_def word_less_nat_alt)
  then have "unat sq \<in> set (Iterate (PieceBitboard (GetSide pos c) piece))"
    by (simp add: mem_Iterate)
  moreover have "sq = of_nat (unat sq)" by simp
  ultimately show "\<exists>i \<in> set (Iterate (PieceBitboard (GetSide pos c) piece)). sq = of_nat i"
    by blast
next
  assume "\<exists>i \<in> set (Iterate (PieceBitboard (GetSide pos c) piece)). sq = of_nat i"
  then obtain i where i: "i < 64" "bit (PieceBitboard (GetSide pos c) piece) i" "sq = of_nat i"
    by (auto simp: mem_Iterate)
  then show "PieceOn pos piece c sq"
    by (simp add: PieceOn_def IsValid_def word_less_nat_alt unat_sq)
qed

lemma set_SidePieces:
  "(piece, c, sq) \<in> set (SidePieces pos c') \<longleftrightarrow> c = c' \<and> PieceOn pos piece c sq"
  by (cases piece) (auto simp add: SidePieces_def PieceOn_iff)

lemma set_PieceList:
  "(piece, c, sq) \<in> set (PieceList pos p) \<longleftrightarrow> PieceOn pos piece c sq"
  by (cases c; cases p) (auto simp add: PieceList_def set_SidePieces)

lemma PieceOn_valid_triple:
  assumes "HasKings pos" "PieceOn pos piece c sq"
  shows "(piece, c = p, sq XOR FlipMask pos p) \<in> set ValidTriples"
proof -
  have v: "sq < 64" using assms(2) by (simp add: PieceOn_def IsValid_def)
  have "File (sq XOR FlipMask pos p) < 4" if "piece = King" "c = p"
  proof -
    obtain k where k: "Iterate (king (GetSide pos p)) = [k]"
      "GetKingSquare (GetSide pos p) = of_nat k"
      using king_single [OF assms(1), of p] by blast
    from assms(2) that have "sq = of_nat k" by (simp add: PieceOn_iff k)
    with own_king_file [OF assms(1), of p] k show ?thesis by simp
  qed
  with v show ?thesis by (simp add: mem_ValidTriples xor_FlipMask_valid)
qed

lemma FeatureIndexOf_inj:
  assumes "(piece, own, rel) \<in> set ValidTriples" "(piece', own', rel') \<in> set ValidTriples"
    and "(ucast (FeatureIndexOf piece own rel) :: 16 word) = ucast (FeatureIndexOf piece' own' rel')"
  shows "piece = piece' \<and> own = own' \<and> rel = rel'"
proof -
  let ?g = "\<lambda>(piece, own, rel). unat (ucast (FeatureIndexOf piece own rel) :: 16 word)"
  have "distinct (map ?g ValidTriples)" by (simp only: enum_features distinct_upt)
  then have "inj_on ?g (set ValidTriples)" by (simp add: distinct_map)
  moreover have "?g (piece, own, rel) = ?g (piece', own', rel')" using assms(3) by simp
  ultimately have "(piece, own, rel) = (piece', own', rel')"
    using assms(1,2) by (rule inj_onD)
  then show ?thesis by simp
qed

lemma FeatureIndexOf_bound:
  assumes "rel < 64" shows "unat (FeatureIndexOf piece own rel) < 736"
proof -
  obtain k where k: "k < 64" "rel = of_nat k" using sq_of_nat [OF assms] by blast
  show ?thesis using all_in_range k
    by (cases piece; cases own) (simp_all add: list_all_iff)
qed

lemma FeatureIndexOf_bound16:
  assumes "(piece, own, rel) \<in> set ValidTriples"
  shows "unat (ucast (FeatureIndexOf piece own rel) :: 16 word) < 736"
proof -
  let ?g = "\<lambda>(piece, own, rel). unat (ucast (FeatureIndexOf piece own rel) :: 16 word)"
  have "?g (piece, own, rel) \<in> ?g ` set ValidTriples" using assms by (rule imageI)
  then have "?g (piece, own, rel) \<in> set (map ?g ValidTriples)" by (simp only: set_map)
  then have "?g (piece, own, rel) \<in> set [0..<736]" by (simp only: enum_features)
  then show ?thesis by simp
qed

lemma xor_cancel:
  assumes "(a :: 8 word) XOR m = b XOR m" shows "a = b"
proof -
  have "(a XOR m) XOR m = (b XOR m) XOR m" using assms by simp
  then show ?thesis by (simp add: xor.assoc)
qed

lemma nth_of_mem: "x \<in> set xs \<Longrightarrow> \<exists>k<length xs. xs ! k = x"
  by (auto simp: in_set_conv_nth)

text \<open>
  Claim C1. In a position with one king per side, the feature vector of the full
  refresh is, entry by entry, the index that \<^verbatim>\<open>DirtyPieceToFeatureIndex\<close> computes
  for the pieces on the board in the encoder's order. Hence for a piece that stands
  on \<^verbatim>\<open>sq\<close> the entry written for that occurrence is exactly its delta index. The
  delta index of a valid square is a member of the feature vector if and only if the
  piece stands on the square; for the king of the side whose perspective is taken
  this needs the flipped square on files a..d, which the source asserts and which
  holds whenever the king stands on the square.
\<close>

theorem delta_index_matches_features:
  assumes "HasKings pos"
  shows "PositionToFeaturesVector pos perspective
           = map (FeatureOf pos perspective) (PieceList pos perspective)
       \<and> (PieceOn pos piece pieceColor sq \<longrightarrow>
            (\<exists>k<length (PieceList pos perspective).
               PieceList pos perspective ! k = (piece, pieceColor, sq) \<and>
               PositionToFeaturesVector pos perspective ! k
                 = ucast (DirtyPieceToFeatureIndex piece pieceColor sq pos perspective)))
       \<and> (IsValid sq \<and> (piece = King \<and> pieceColor = perspective
                         \<longrightarrow> File (sq XOR FlipMask pos perspective) < 4) \<longrightarrow>
            (ucast (DirtyPieceToFeatureIndex piece pieceColor sq pos perspective)
                \<in> set (PositionToFeaturesVector pos perspective)
             \<longleftrightarrow> PieceOn pos piece pieceColor sq))"
proof (intro conjI impI)
  show m: "PositionToFeaturesVector pos perspective
           = map (FeatureOf pos perspective) (PieceList pos perspective)"
    using assms by (rule features_map)
  {
    assume on: "PieceOn pos piece pieceColor sq"
    then have "(piece, pieceColor, sq) \<in> set (PieceList pos perspective)"
      by (simp add: set_PieceList)
    then obtain k where k: "k < length (PieceList pos perspective)"
        "PieceList pos perspective ! k = (piece, pieceColor, sq)"
      using nth_of_mem by metis
    then have "PositionToFeaturesVector pos perspective ! k
                 = ucast (DirtyPieceToFeatureIndex piece pieceColor sq pos perspective)"
      by (simp add: m FeatureOf_def)
    with k show "\<exists>k<length (PieceList pos perspective).
               PieceList pos perspective ! k = (piece, pieceColor, sq) \<and>
               PositionToFeaturesVector pos perspective ! k
                 = ucast (DirtyPieceToFeatureIndex piece pieceColor sq pos perspective)"
      by blast
  }
  {
    assume pre: "IsValid sq \<and> (piece = King \<and> pieceColor = perspective
                         \<longrightarrow> File (sq XOR FlipMask pos perspective) < 4)"
    let ?d = "ucast (DirtyPieceToFeatureIndex piece pieceColor sq pos perspective) :: 16 word"
    have valid: "(piece, pieceColor = perspective, sq XOR FlipMask pos perspective)
                  \<in> set ValidTriples"
      using pre by (simp add: mem_ValidTriples IsValid_def xor_FlipMask_valid)
    show "?d \<in> set (PositionToFeaturesVector pos perspective)
             \<longleftrightarrow> PieceOn pos piece pieceColor sq"
    proof
      assume "PieceOn pos piece pieceColor sq"
      then have "(piece, pieceColor, sq) \<in> set (PieceList pos perspective)"
        by (simp add: set_PieceList)
      then have "FeatureOf pos perspective (piece, pieceColor, sq)
                   \<in> set (map (FeatureOf pos perspective) (PieceList pos perspective))"
        by simp
      then show "?d \<in> set (PositionToFeaturesVector pos perspective)"
        by (simp add: m FeatureOf_def)
    next
      assume "?d \<in> set (PositionToFeaturesVector pos perspective)"
      then obtain piece' c' sq' where y: "(piece', c', sq') \<in> set (PieceList pos perspective)"
          "FeatureOf pos perspective (piece', c', sq') = ?d"
        by (auto simp add: m)
      from y(1) have on': "PieceOn pos piece' c' sq'" by (simp add: set_PieceList)
      have valid': "(piece', c' = perspective, sq' XOR FlipMask pos perspective)
                  \<in> set ValidTriples"
        using assms on' by (rule PieceOn_valid_triple)
      from y(2) have "(ucast (FeatureIndexOf piece' (c' = perspective)
                         (sq' XOR FlipMask pos perspective)) :: 16 word)
                  = ucast (FeatureIndexOf piece (pieceColor = perspective)
                         (sq XOR FlipMask pos perspective))"
        by (simp add: FeatureOf_def delta_FeatureIndexOf)
      with FeatureIndexOf_inj [OF valid' valid]
      have e: "piece' = piece" "(c' = perspective) = (pieceColor = perspective)"
          "sq' XOR FlipMask pos perspective = sq XOR FlipMask pos perspective"
        by simp_all
      from e(2) have "c' = pieceColor" by (cases c'; cases pieceColor; cases perspective) simp_all
      moreover from e(3) have "sq' = sq" by (rule xor_cancel)
      ultimately show "PieceOn pos piece pieceColor sq" using on' e(1) by simp
    qed
  }
qed

text \<open>The White king on e1 in the initial position: slot 323 (scenario E1).\<close>

theorem delta_index_matches_features_witness:
  "HasKings StartPosition \<and> PieceOn StartPosition King White 4
   \<and> (\<exists>k<length (PieceList StartPosition White).
         PieceList StartPosition White ! k = (King, White, 4) \<and>
         PositionToFeaturesVector StartPosition White ! k
           = ucast (DirtyPieceToFeatureIndex King White 4 StartPosition White))
   \<and> DirtyPieceToFeatureIndex King White 4 StartPosition White = 323
   \<and> 323 \<in> set (PositionToFeaturesVector StartPosition White)"
proof -
  have h: "HasKings StartPosition" by code_simp
  have on: "PieceOn StartPosition King White 4" by code_simp
  have d: "DirtyPieceToFeatureIndex King White 4 StartPosition White = 323" by code_simp
  have f: "File (4 XOR FlipMask StartPosition White) < 4" by code_simp
  have v: "IsValid 4" by code_simp
  note t = delta_index_matches_features [where pos = StartPosition and perspective = White
      and piece = King and pieceColor = White and sq = 4, OF h]
  from t on have "\<exists>k<length (PieceList StartPosition White).
         PieceList StartPosition White ! k = (King, White, 4) \<and>
         PositionToFeaturesVector StartPosition White ! k
           = ucast (DirtyPieceToFeatureIndex King White 4 StartPosition White)"
    by blast
  moreover from t on v f have "ucast (DirtyPieceToFeatureIndex King White 4 StartPosition White)
      \<in> set (PositionToFeaturesVector StartPosition White)"
    by blast
  then have "323 \<in> set (PositionToFeaturesVector StartPosition White)"
    by (simp add: d)
  ultimately show ?thesis using h on d by blast
qed

lemma length_Segment: "length (Segment n m bb) = Count bb"
  by (simp add: Segment_def Count_def)

lemma of_nat_sq_inj:
  assumes "i < 64" "j < 64" "(of_nat i :: 8 word) = of_nat j" shows "i = j"
proof -
  have "unat (of_nat i :: 8 word) = unat (of_nat j :: 8 word)" using assms(3) by simp
  then show ?thesis using assms(1,2) by (simp add: unat_sq)
qed

lemma distinct_piece_map:
  "distinct (map (\<lambda>i. (piece, c, of_nat i :: 8 word)) (Iterate bb))"
proof -
  have "distinct (Iterate bb)" by (simp add: Iterate_def)
  moreover have "inj_on (\<lambda>i. (piece, c, of_nat i :: 8 word)) (set (Iterate bb))"
    by (auto simp add: inj_on_def mem_Iterate intro: of_nat_sq_inj)
  ultimately show ?thesis by (simp add: distinct_map)
qed

lemma distinct_SidePieces: "distinct (SidePieces pos c)"
  by (auto simp add: SidePieces_def distinct_piece_map)

lemma distinct_PieceList: "distinct (PieceList pos p)"
proof -
  have "set (SidePieces pos p) \<inter> set (SidePieces pos (GetOppositeColor p)) = {}"
    using opp_neq [of p] by (auto simp add: set_SidePieces)
  then show ?thesis by (simp add: PieceList_def distinct_SidePieces)
qed

text \<open>
  Claim C9. In a position with one king per side the encoder writes one entry per
  piece on the board, both kings included: the returned count is the number of
  pieces, the entries correspond one to one to the (distinct) piece occurrences, and
  with at most 16 pieces a side, as in every legal position, the count is at most 32,
  below the 64 entries of the buffer.
\<close>

theorem features_count:
  assumes "HasKings pos"
  shows "length (PositionToFeaturesVector pos perspective) = GetNumPieces pos
       \<and> length (PositionToFeaturesVector pos perspective) = length (PieceList pos perspective)
       \<and> distinct (PieceList pos perspective)
       \<and> (SideCount (Whites pos) \<le> 16 \<and> SideCount (Blacks pos) \<le> 16
            \<longrightarrow> length (PositionToFeaturesVector pos perspective) \<le> 32)"
proof -
  have w: "Count (king (Whites pos)) = 1" and b: "Count (king (Blacks pos)) = 1"
    using assms by (simp_all add: HasKings_def)
  have n: "length (PositionToFeaturesVector pos perspective) = GetNumPieces pos"
    by (cases perspective)
      (simp_all add: features_eq Let_def length_Segment GetNumPieces_def SideCount_def w b)
  have l: "length (PositionToFeaturesVector pos perspective) = length (PieceList pos perspective)"
    by (simp add: features_map [OF assms])
  have d: "distinct (PieceList pos perspective)"
    by (rule distinct_PieceList)
  show ?thesis using n l d by (simp add: GetNumPieces_def)
qed

theorem features_count_witness:
  "HasKings StartPosition
   \<and> SideCount (Whites StartPosition) \<le> 16 \<and> SideCount (Blacks StartPosition) \<le> 16
   \<and> GetNumPieces StartPosition = 32
   \<and> length (PositionToFeaturesVector StartPosition White) = 32
   \<and> length (PositionToFeaturesVector StartPosition White) \<le> 32"
proof -
  have h: "HasKings StartPosition" by code_simp
  have w: "SideCount (Whites StartPosition) \<le> 16" by code_simp
  have b: "SideCount (Blacks StartPosition) \<le> 16" by code_simp
  have n: "GetNumPieces StartPosition = 32" by code_simp
  note t = features_count [where pos = StartPosition and perspective = White, OF h]
  from t n have "length (PositionToFeaturesVector StartPosition White) = 32" by simp
  moreover from t w b have "length (PositionToFeaturesVector StartPosition White) \<le> 32"
    by blast
  ultimately show ?thesis using h w b n by blast
qed

text \<open>
  Claim C7. With one king per side, the king of the side whose perspective is taken
  is on files a..d after the flips, and every entry of the feature vector is below
  736 = 32 + 64 + 10 * 64. The index \<^verbatim>\<open>DirtyPieceToFeatureIndex\<close> returns for a valid
  square (the only squares \<^verbatim>\<open>UpdateAccumulator\<close> passes) is below 736 as well, for
  every piece, colour, position and perspective. Both are unsigned, so at least 0.
\<close>

theorem feature_indices_in_range:
  "(HasKings pos \<longrightarrow>
      File (fst (FlipSetup pos perspective)) < 4 \<and>
      (\<forall>f \<in> set (PositionToFeaturesVector pos perspective). unat f < 736))
   \<and> (IsValid sq \<longrightarrow>
        unat (DirtyPieceToFeatureIndex piece pieceColor sq pos perspective) < 736)
   \<and> (736 :: nat) = 32 + 64 + 10 * 64"
proof (intro conjI impI ballI)
  assume h: "HasKings pos"
  show "File (fst (FlipSetup pos perspective)) < 4"
    using own_king_file [OF h, of perspective] by (simp add: FlipSetup_eq)
next
  fix f assume h: "HasKings pos" and f: "f \<in> set (PositionToFeaturesVector pos perspective)"
  from f obtain piece c sq where x: "(piece, c, sq) \<in> set (PieceList pos perspective)"
      "f = FeatureOf pos perspective (piece, c, sq)"
    by (auto simp add: features_map [OF h])
  from x(1) have "PieceOn pos piece c sq" by (simp add: set_PieceList)
  with h have "(piece, c = perspective, sq XOR FlipMask pos perspective) \<in> set ValidTriples"
    by (rule PieceOn_valid_triple)
  then have "unat (ucast (FeatureIndexOf piece (c = perspective)
                (sq XOR FlipMask pos perspective)) :: 16 word) < 736"
    by (rule FeatureIndexOf_bound16)
  then show "unat f < 736" by (simp add: x(2) FeatureOf_def delta_FeatureIndexOf)
next
  assume "IsValid sq"
  then have "sq XOR FlipMask pos perspective < 64"
    by (simp add: IsValid_def xor_FlipMask_valid)
  then show "unat (DirtyPieceToFeatureIndex piece pieceColor sq pos perspective) < 736"
    by (simp add: delta_FeatureIndexOf FeatureIndexOf_bound)
next
  show "(736 :: nat) = 32 + 64 + 10 * 64" by simp
qed

theorem feature_indices_in_range_witness:
  "HasKings StartPosition
   \<and> File (fst (FlipSetup StartPosition White)) < 4
   \<and> 731 \<in> set (PositionToFeaturesVector StartPosition White)
   \<and> unat (731 :: 16 word) < 736
   \<and> IsValid 60
   \<and> DirtyPieceToFeatureIndex King Black 60 StartPosition White = 731
   \<and> unat (DirtyPieceToFeatureIndex King Black 60 StartPosition White) < 736"
proof -
  have h: "HasKings StartPosition" by code_simp
  have v: "IsValid 60" by code_simp
  have m: "731 \<in> set (PositionToFeaturesVector StartPosition White)" by code_simp
  have d: "DirtyPieceToFeatureIndex King Black 60 StartPosition White = 731" by code_simp
  note t = feature_indices_in_range [where pos = StartPosition and perspective = White
      and sq = 60 and piece = King and pieceColor = Black]
  from t h have "File (fst (FlipSetup StartPosition White)) < 4" by blast
  moreover from t h m have "unat (731 :: 16 word) < 736" by blast
  moreover from t v have "unat (DirtyPieceToFeatureIndex King Black 60 StartPosition White) < 736"
    by blast
  ultimately show ?thesis using h v m d by blast
qed

text \<open>
  Claim C2, as the code has it. The encoder flips files (XOR \<^verbatim>\<open>0b000111\<close>) if and only
  if the king of the side whose perspective is taken is on files e..h, and flips
  ranks (XOR \<^verbatim>\<open>0b111000\<close>) if and only if the perspective is Black; the two combine
  by XOR into one mask, applied to both king squares, to every square the full
  refresh writes, and to the square of \<^verbatim>\<open>DirtyPieceToFeatureIndex\<close>.
\<close>

theorem flips_follow_perspective_king:
  "FlipMask pos perspective =
      (if File (GetKingSquare (GetSide pos perspective)) \<ge> 4 then 7 else 0)
        XOR (if perspective = Black then 56 else 0)
   \<and> FlipSetup pos perspective =
      (GetKingSquare (GetSide pos perspective) XOR FlipMask pos perspective,
       GetKingSquare (GetSide pos (GetOppositeColor perspective)) XOR FlipMask pos perspective,
       ucast (FlipMask pos perspective))
   \<and> PositionToFeaturesVector pos perspective =
      (let whites = GetSide pos perspective; blacks = GetSide pos (GetOppositeColor perspective);
           m = ucast (FlipMask pos perspective);
           wk = GetKingSquare whites XOR FlipMask pos perspective;
           bk = GetKingSquare blacks XOR FlipMask pos perspective
       in Segment 0 m (pawns whites) @ Segment 64 m (knights whites)
          @ Segment 128 m (bishops whites) @ Segment 192 m (rooks whites)
          @ Segment 256 m (queens whites)
          @ [ucast (320 + (4 * ucast (Rank wk) + ucast (File wk) :: 32 word))]
          @ Segment 352 m (pawns blacks) @ Segment 416 m (knights blacks)
          @ Segment 480 m (bishops blacks) @ Segment 544 m (rooks blacks)
          @ Segment 608 m (queens blacks)
          @ [ucast (672 + (ucast (Index bk) :: 32 word))])
   \<and> DirtyPieceToFeatureIndex piece pieceColor sq pos perspective =
      FeatureIndexOf piece (pieceColor = perspective) (sq XOR FlipMask pos perspective)"
  by (simp only: FlipSetup_eq features_eq delta_FeatureIndexOf FlipMask_def simp_thms)

text \<open>
  Claim C2 as the spec words it names the king of the side to move. With White to
  move, the White king on a1 and the Black king on h8, the Black perspective flips
  files although the king of the side to move is on file a: the White pawn on a2
  gets index 407 = 352 + (8 XOR 63), not 400 = 352 + (8 XOR 56).
\<close>

theorem flips_side_to_move_counterexample:
  "GetSideToMove KingsApartPosition = White
   \<and> File (GetKingSquare (GetSide KingsApartPosition (GetSideToMove KingsApartPosition))) = 0
   \<and> File (GetKingSquare (GetSide KingsApartPosition Black)) = 7
   \<and> FlipMaskSideToMove KingsApartPosition Black = 56
   \<and> snd (snd (FlipSetup KingsApartPosition Black)) = 63
   \<and> snd (snd (FlipSetup KingsApartPosition Black))
        \<noteq> ucast (FlipMaskSideToMove KingsApartPosition Black)
   \<and> PositionToFeaturesVector KingsApartPosition Black = [320, 407, 735]
   \<and> DirtyPieceToFeatureIndex Pawn White 8 KingsApartPosition Black = 407
   \<and> DirtyPieceToFeatureIndex Pawn White 8 KingsApartPosition Black
        \<noteq> 352 + ucast ((8 :: 8 word) XOR FlipMaskSideToMove KingsApartPosition Black)"
  by code_simp

section \<open>The cancellation of added against removed features\<close>

lemma findRemoved_None: "findRemoved a rs j = None \<longleftrightarrow> a \<notin> set rs"
  by (induction rs arbitrary: j) auto

lemma findRemoved_Some:
  "findRemoved a rs j = Some k \<Longrightarrow> j \<le> k \<and> k - j < length rs \<and> rs ! (k - j) = a"
proof (induction rs arbitrary: j)
  case Nil
  then show ?case by simp
next
  case (Cons r rs)
  show ?case
  proof (cases "a = r")
    case True
    with Cons.prems show ?thesis by simp
  next
    case False
    with Cons.prems have "findRemoved a rs (j + 1) = Some k" by simp
    from Cons.IH [OF this] have "j + 1 \<le> k" "k - (j + 1) < length rs" "rs ! (k - (j + 1)) = a"
      by simp_all
    then show ?thesis by (simp add: nth_Cons') 
  qed
qed

lemma mset_swapRemove:
  assumes "i < length xs"
  shows "mset (swapRemove i xs) + {# xs ! i #} = mset xs"
proof -
  from assms have ne: "xs \<noteq> []" by auto
  then obtain ys y where xs: "xs = ys @ [y]" by (metis rev_exhaust)
  show ?thesis
  proof (cases "i < length ys")
    case True
    then have "swapRemove i xs = ys[i := y]"
      by (simp add: swapRemove_def xs list_update_append)
    then show ?thesis using True
      by (simp add: xs nth_append mset_update)
  next
    case False
    with assms have "i = length ys" by (simp add: xs)
    then show ?thesis by (simp add: swapRemove_def xs)
  qed
qed

lemma set_swapRemove: "set (swapRemove i xs) \<subseteq> set xs"
proof (cases "i < length xs")
  case True
  have "set (swapRemove i xs) \<subseteq> set_mset (mset (swapRemove i xs) + {# xs ! i #})"
    by auto
  also have "\<dots> = set_mset (mset xs)"
    by (simp only: mset_swapRemove [OF True])
  finally show ?thesis by simp
next
  case False
  then have "xs[i := last xs] = xs" by (intro list_update_beyond) simp
  then show ?thesis by (auto simp add: swapRemove_def dest: in_set_butlastD)
qed

lemma nth_swapRemove: "k < i \<Longrightarrow> i < length xs \<Longrightarrow> swapRemove i xs ! k = xs ! k"
  by (simp add: swapRemove_def nth_butlast)

lemma length_swapRemove: "length (swapRemove i xs) = length xs - 1"
  by (simp add: swapRemove_def)


lemma cancelFeatures_mset:
  "cancelFeatures i added removed = (added', removed') \<Longrightarrow>
   \<exists>cancelled. mset added = mset added' + cancelled \<and> mset removed = mset removed' + cancelled"
proof (induction i added removed rule: cancelFeatures.induct)
  case (1 i added removed)
  show ?case
  proof (cases "i < length added")
    case False
    with "1.prems" have "added' = added" "removed' = removed"
      by (simp_all add: cancelFeatures.simps [of i added removed])
    then show ?thesis by simp
  next
    case True
    show ?thesis
    proof (cases "findRemoved (added ! i) removed 0")
      case None
      with True "1.prems" have "cancelFeatures (i + 1) added removed = (added', removed')"
        by (simp add: cancelFeatures.simps [of i added removed])
      from "1.IH"(1) [OF True None this] show ?thesis .
    next
      case (Some j)
      with True "1.prems"
      have "cancelFeatures i (swapRemove i added) (swapRemove j removed) = (added', removed')"
        by (simp add: cancelFeatures.simps [of i added removed])
      from "1.IH"(2) [OF True Some this] obtain c where
        c: "mset (swapRemove i added) = mset added' + c"
           "mset (swapRemove j removed) = mset removed' + c"
        by blast
      from findRemoved_Some [OF Some] have j: "j < length removed" "removed ! j = added ! i"
        by simp_all
      have "mset added = mset (swapRemove i added) + {# added ! i #}"
        using mset_swapRemove [OF True] by simp
      moreover have "mset removed = mset (swapRemove j removed) + {# added ! i #}"
        using mset_swapRemove [OF j(1)] j(2) by simp
      ultimately have "mset added = mset added' + (c + {# added ! i #})"
        "mset removed = mset removed' + (c + {# added ! i #})"
        using c by simp_all
      then show ?thesis by blast
    qed
  qed
qed

lemma cancelFeatures_disjoint:
  "cancelFeatures i added removed = (added', removed') \<Longrightarrow>
   \<forall>k<i. k < length added \<longrightarrow> added ! k \<notin> set removed \<Longrightarrow>
   set added' \<inter> set removed' = {}"
proof (induction i added removed rule: cancelFeatures.induct)
  case (1 i added removed)
  show ?case
  proof (cases "i < length added")
    case False
    with "1.prems"(1) have e: "added' = added" "removed' = removed"
      by (simp_all add: cancelFeatures.simps [of i added removed])
    have "x \<notin> set removed" if "x \<in> set added" for x
    proof -
      from that obtain k where "k < length added" "added ! k = x"
        by (auto simp: in_set_conv_nth)
      with False "1.prems"(2) show ?thesis by auto
    qed
    then show ?thesis using e by auto
  next
    case True
    show ?thesis
    proof (cases "findRemoved (added ! i) removed 0")
      case None
      with True "1.prems"(1) have r: "cancelFeatures (i + 1) added removed = (added', removed')"
        by (simp add: cancelFeatures.simps [of i added removed])
      from None have "added ! i \<notin> set removed" by (simp add: findRemoved_None)
      with "1.prems"(2) have "\<forall>k<i + 1. k < length added \<longrightarrow> added ! k \<notin> set removed"
        by (auto simp add: less_Suc_eq)
      from "1.IH"(1) [OF True None r this] show ?thesis .
    next
      case (Some j)
      with True "1.prems"(1)
      have r: "cancelFeatures i (swapRemove i added) (swapRemove j removed) = (added', removed')"
        by (simp add: cancelFeatures.simps [of i added removed])
      have "\<forall>k<i. k < length (swapRemove i added) \<longrightarrow>
               swapRemove i added ! k \<notin> set (swapRemove j removed)"
      proof (intro allI impI)
        fix k assume k: "k < i" "k < length (swapRemove i added)"
        with True have "swapRemove i added ! k = added ! k" by (simp add: nth_swapRemove)
        moreover from k True "1.prems"(2) have "added ! k \<notin> set removed" by simp
        ultimately show "swapRemove i added ! k \<notin> set (swapRemove j removed)"
          using set_swapRemove [of j removed] by auto
      qed
      from "1.IH"(2) [OF True Some r this] show ?thesis .
    qed
  qed
qed

text \<open>
  Claim C8. For all lists of added and removed features, after the cancellation scan
  of \<^verbatim>\<open>UpdateAccumulator\<close> the two lists have no value in common, and the scan has
  deleted the same multiset of values from both (one element of each list per
  matched pair), so the difference of added and removed is what it was.
\<close>

theorem cancellation_disjoint_and_balanced:
  assumes "cancelFeatures 0 addedFeatures removedFeatures = (added', removed')"
  shows "set added' \<inter> set removed' = {}
       \<and> (\<exists>cancelled. mset addedFeatures = mset added' + cancelled
                        \<and> mset removedFeatures = mset removed' + cancelled)
       \<and> mset addedFeatures + mset removed' = mset added' + mset removedFeatures"
proof -
  have d: "set added' \<inter> set removed' = {}"
    using cancelFeatures_disjoint [OF assms] by simp
  obtain c where c: "mset addedFeatures = mset added' + c" "mset removedFeatures = mset removed' + c"
    using cancelFeatures_mset [OF assms] by blast
  then have "mset addedFeatures + mset removed' = mset added' + mset removedFeatures"
    by simp
  with d c show ?thesis by blast
qed

theorem cancellation_disjoint_and_balanced_witness:
  "cancelFeatures 0 [1, 2, 3, 2, 5] [2, 7, 2, 1, 2] = ([5, 3], [2, 7])
   \<and> set [5, 3 :: 16 word] \<inter> set [2, 7] = {}
   \<and> (\<exists>cancelled. mset [1, 2, 3, 2, 5 :: 16 word] = mset [5, 3] + cancelled
                      \<and> mset [2, 7, 2, 1, 2 :: 16 word] = mset [2, 7] + cancelled)"
proof -
  have e: "cancelFeatures 0 [1, 2, 3, 2, 5] [2, 7, 2, 1, 2] = ([5, 3], [2, 7])"
    by code_simp
  from cancellation_disjoint_and_balanced [OF e] e show ?thesis by blast
qed

section \<open>Properties of the incremental evaluator\<close>

lemma findPrevAccumNode_range:
  "findPrevAccumNode rc ks p cost i nodes = Some k \<Longrightarrow> i \<le> k \<and> k < i + length nodes"
proof (induction nodes arbitrary: cost i)
  case Nil
  then show ?case by simp
next
  case (Cons n nodes)
  let ?cost = "cost + length (dirtyPieces (nnContext n))"
  show ?case
  proof (cases "findPrevAccumNode rc ks p ?cost (i + 1) nodes = Some k")
    case True
    from Cons.IH [OF True] show ?thesis by simp
  next
    case False
    with Cons.prems have "k = i" by (simp add: Let_def split: if_splits)
    then show ?thesis by simp
  qed
qed

lemma PrevAccumNode_range:
  "PrevAccumNode nodes p = Some k \<Longrightarrow> k < length nodes"
  using findPrevAccumNode_range [of _ _ p 0 0 nodes k] by (simp add: PrevAccumNode_def)

lemma buildFeatureLists_Some:
  "i \<le> prev \<Longrightarrow> prev < i + length nodes \<Longrightarrow>
   \<exists>l. buildFeatureLists pos p prev i nodes featureLists = Some l"
proof (induction nodes arbitrary: i featureLists)
  case Nil
  then show ?case by simp
next
  case (Cons n nodes)
  show ?case
  proof (cases "i = prev")
    case True
    then show ?thesis by simp
  next
    case False
    with Cons.prems have "i + 1 \<le> prev" "prev < (i + 1) + length nodes" by simp_all
    from Cons.IH [OF this] show ?thesis using False by simp
  qed
qed

lemma At_SetAt: "At (SetAt arr p v) p = v"
  by (cases p) simp_all

lemma UpdateAccumulator_trace:
  assumes "UpdateAccumulator network prev node p st = Some st'"
  shows "trace st' = trace st @ [UpdateAccumulatorCall prev node p]
       \<and> length (path st') = length (path st)"
proof (cases "NewAccumulator network prev node p (path st)")
  case None
  with assms show ?thesis by (simp add: UpdateAccumulator_def)
next
  case (Some acc)
  with assms show ?thesis by (auto simp add: UpdateAccumulator_def Let_def)
qed

lemma NewAccumulator_Some:
  assumes "prev = None \<or> (\<exists>k. prev = Some k \<and> node \<le> k \<and> k < length nodes)"
  shows "\<exists>acc. NewAccumulator network prev node p nodes = Some acc"
proof (cases prev)
  case None
  then show ?thesis by (simp add: NewAccumulator_def)
next
  case (Some k)
  with assms have k: "node \<le> k" "k < length nodes" by simp_all
  then have "k < node + length (drop node nodes)" by simp
  from buildFeatureLists_Some [OF k(1) this]
  obtain l where l: "buildFeatureLists (position (nodes ! node)) p k node
                    (drop node nodes) ([], []) = Some l"
    by blast
  obtain a r where ar: "l = (a, r)" by (cases l)
  obtain a' r' where c: "cancelFeatures 0 a r = (a', r')" by (cases "cancelFeatures 0 a r")
  show ?thesis
    by (simp add: NewAccumulator_def Some l ar c Let_def)
qed

lemma UpdateAccumulator_Some:
  assumes "prev = None \<or> (\<exists>k. prev = Some k \<and> node \<le> k \<and> k < length (path st))"
  shows "\<exists>st'. UpdateAccumulator network prev node p st = Some st'"
proof -
  from NewAccumulator_Some [OF assms]
  obtain acc where "NewAccumulator network prev node p (path st) = Some acc" by blast
  then show ?thesis by (simp add: UpdateAccumulator_def Let_def)
qed

lemma UpdateAccumulator_refresh:
  assumes "UpdateAccumulator network None node p st = Some st'" "node < length (path st)"
  shows "At (accumulator (nnContext (path st' ! node))) p
         = AccumulatorRefresh network (PositionToFeaturesVector (position (path st ! node)) p)"
proof -
  have "NewAccumulator network None node p (path st)
        = Some (AccumulatorRefresh network (PositionToFeaturesVector (position (path st ! node)) p))"
    by (simp add: NewAccumulator_def)
  with assms show ?thesis by (auto simp add: UpdateAccumulator_def Let_def At_SetAt)
qed


lemma parentNode_zero:
  "parentNode nodes 0 = (if 1 < length nodes then Some 1 else None)"
  by (simp add: parentNode_def)

text \<open>
  Claim C4, as the code has it. For each perspective the evaluator always completes,
  and the calls of \<^verbatim>\<open>UpdateAccumulator\<close> it makes are: none when \<^verbatim>\<open>prevAccumNode\<close>
  is the node itself; the two-stage update (the parent from \<^verbatim>\<open>prevAccumNode\<close>, then
  the node from its parent) exactly when, besides, \<^verbatim>\<open>prevAccumNode\<close> is non-null and
  the parent of the node is non-null, different from \<^verbatim>\<open>prevAccumNode\<close> and dirty;
  otherwise one update of the node directly from \<^verbatim>\<open>prevAccumNode\<close>, which is a full
  refresh from the position when \<^verbatim>\<open>prevAccumNode\<close> is null.
\<close>

theorem two_stage_condition:
  assumes "path st \<noteq> []"
  shows "\<exists>st'. ResolveAccumulator network perspective st = Some st'
       \<and> trace st' = trace st @
           (let prevAccumNode = PrevAccumNode (path st) perspective
            in if prevAccumNode = Some 0 then []
               else if prevAccumNode \<noteq> None \<and> parentNode (path st) 0 \<noteq> None \<and>
                       parentNode (path st) 0 \<noteq> prevAccumNode \<and>
                       At (accumDirty (nnContext (path st ! 1))) perspective
               then [UpdateAccumulatorCall prevAccumNode 1 perspective,
                     UpdateAccumulatorCall (Some 1) 0 perspective]
               else [UpdateAccumulatorCall prevAccumNode 0 perspective])
       \<and> (if PrevAccumNode (path st) perspective = None
           then At (accumulator (nnContext (path st' ! 0))) perspective
                = AccumulatorRefresh network
                    (PositionToFeaturesVector (position (path st ! 0)) perspective)
           else True)"
proof -
  let ?nodes = "path st"
  let ?prev = "PrevAccumNode ?nodes perspective"
  let ?two = "parentNode ?nodes 0 \<noteq> None \<and> ?prev \<noteq> None \<and> parentNode ?nodes 0 \<noteq> ?prev \<and>
              At (accumDirty (nnContext (?nodes ! the (parentNode ?nodes 0)))) perspective"
  from assms have len: "0 < length ?nodes" by simp
  consider (cached) "?prev = Some 0" | (two) "?prev \<noteq> Some 0" "?two"
    | (single) "?prev \<noteq> Some 0" "\<not> ?two"
    by blast
  then show ?thesis
  proof cases
    case cached
    then show ?thesis by (simp add: ResolveAccumulator_def Let_def)
  next
    case two
    then have par: "parentNode ?nodes 0 = Some 1" and len1: "1 < length ?nodes"
      by (simp_all add: parentNode_zero split: if_splits)
    from two obtain k where k: "?prev = Some k" by auto
    have "k < length ?nodes" using k by (rule PrevAccumNode_range)
    moreover from two k par have "k \<noteq> 0" "k \<noteq> 1" by auto
    ultimately have "?prev = None \<or> (\<exists>j. ?prev = Some j \<and> 1 \<le> j \<and> j < length (path st))"
      using k by auto
    from UpdateAccumulator_Some [OF this]
    obtain st1 where st1: "UpdateAccumulator network ?prev 1 perspective st = Some st1"
      by blast
    from UpdateAccumulator_trace [OF st1]
    have t1: "trace st1 = trace st @ [UpdateAccumulatorCall ?prev 1 perspective]"
      and l1: "length (path st1) = length ?nodes" by simp_all
    have "Some 1 = None \<or> (\<exists>j. Some (1::nat) = Some j \<and> 0 \<le> j \<and> j < length (path st1))"
      using len1 l1 by simp
    from UpdateAccumulator_Some [OF this]
    obtain st2 where st2: "UpdateAccumulator network (Some 1) 0 perspective st1 = Some st2"
      by blast
    from UpdateAccumulator_trace [OF st2] t1
    have t2: "trace st2 = trace st @ [UpdateAccumulatorCall ?prev 1 perspective,
                                       UpdateAccumulatorCall (Some 1) 0 perspective]"
      by simp
    have r: "ResolveAccumulator network perspective st = Some st2"
      using two par st1 st2 by (simp add: ResolveAccumulator_def Let_def)
    show ?thesis using r t2 two par k by (simp add: Let_def)
  next
    case single
    have "?prev = None \<or> (\<exists>j. ?prev = Some j \<and> 0 \<le> j \<and> j < length (path st))"
      using PrevAccumNode_range [of ?nodes perspective] by (cases ?prev) auto
    from UpdateAccumulator_Some [OF this]
    obtain st1 where st1: "UpdateAccumulator network ?prev 0 perspective st = Some st1"
      by blast
    from UpdateAccumulator_trace [OF st1]
    have t1: "trace st1 = trace st @ [UpdateAccumulatorCall ?prev 0 perspective]" by simp
    have r: "ResolveAccumulator network perspective st = Some st1"
      by (simp only: ResolveAccumulator_def Let_def if_not_P [OF single(1)]
          if_not_P [OF single(2)] st1)
    have n: "\<not> (?prev \<noteq> None \<and> parentNode ?nodes 0 \<noteq> None \<and> parentNode ?nodes 0 \<noteq> ?prev \<and>
                At (accumDirty (nnContext (?nodes ! 1))) perspective)"
      using single(2) by (auto simp add: parentNode_zero split: if_splits)
    have f: "At (accumulator (nnContext (path st1 ! 0))) perspective
                = AccumulatorRefresh network
                    (PositionToFeaturesVector (position (path st ! 0)) perspective)"
      if "?prev = None"
      using UpdateAccumulator_refresh [of network 0 perspective st st1] st1 that len by simp
    show ?thesis
      unfolding Let_def if_not_P [OF single(1)] if_not_P [OF n]
      using r t1 f by auto
  qed
qed


text \<open>
  Three nodes, only the root with its accumulators: the parent is updated from the
  root, then the node from the parent.
\<close>

theorem two_stage_condition_witness:
  "path DeepPath \<noteq> []
   \<and> PrevAccumNode (path DeepPath) White = Some 2
   \<and> parentNode (path DeepPath) 0 = Some 1
   \<and> At (accumDirty (nnContext (path DeepPath ! 1))) White
   \<and> (\<exists>st'. ResolveAccumulator ListNetwork White DeepPath = Some st'
          \<and> trace st' = [UpdateAccumulatorCall (Some 2) 1 White,
                           UpdateAccumulatorCall (Some 1) 0 White])"
proof -
  have n: "path DeepPath \<noteq> []" by (simp add: DeepPath_def)
  have p: "PrevAccumNode (path DeepPath) White = Some 2" by code_simp
  have q: "parentNode (path DeepPath) 0 = Some 1" by code_simp
  have d: "At (accumDirty (nnContext (path DeepPath ! 1))) White" by code_simp
  have t: "trace DeepPath = []" by (simp add: DeepPath_def)
  have d': "fst (accumDirty (nnContext (path DeepPath ! Suc 0)))" using d by simp
  from two_stage_condition [OF n, of ListNetwork White]
  obtain st' where "ResolveAccumulator ListNetwork White DeepPath = Some st'"
    "trace st' = [UpdateAccumulatorCall (Some 2) 1 White, UpdateAccumulatorCall (Some 1) 0 White]"
    by (auto simp add: p q d' t Let_def)
  then show ?thesis using n p q d by blast
qed

text \<open>
  Claim C4 as stated leaves out that \<^verbatim>\<open>prevAccumNode\<close> must be non-null. On the first
  evaluation below a root without accumulators \<^verbatim>\<open>prevAccumNode\<close> is null; the parent
  is non-null, different from it and dirty, yet the node is refreshed directly and
  the parent is left alone.
\<close>

theorem two_stage_as_stated_counterexample:
  "TwoStageAsStated (path FreshPath) White (PrevAccumNode (path FreshPath) White)
   \<and> PrevAccumNode (path FreshPath) White = None
   \<and> parentNode (path FreshPath) 0 = Some 1
   \<and> At (accumDirty (nnContext (path FreshPath ! 1))) White
   \<and> map_option trace (ResolveAccumulator ListNetwork White FreshPath)
       = Some [UpdateAccumulatorCall None 0 White]
   \<and> map_option trace (ResolveAccumulator ListNetwork White FreshPath)
       \<noteq> Some [UpdateAccumulatorCall (PrevAccumNode (path FreshPath) White) 1 White,
                UpdateAccumulatorCall (Some 1) 0 White]"
proof -
  have p: "PrevAccumNode (path FreshPath) White = None" by code_simp
  have q: "parentNode (path FreshPath) 0 = Some 1" by code_simp
  have d: "At (accumDirty (nnContext (path FreshPath ! 1))) White" by code_simp
  have s: "TwoStageAsStated (path FreshPath) White (PrevAccumNode (path FreshPath) White)"
    using d by (simp add: TwoStageAsStated_def p q)
  have r: "map_option trace (ResolveAccumulator ListNetwork White FreshPath)
       = Some [UpdateAccumulatorCall None 0 White]"
    by code_simp
  have ne: "map_option trace (ResolveAccumulator ListNetwork White FreshPath)
       \<noteq> Some [UpdateAccumulatorCall (PrevAccumNode (path FreshPath) White) 1 White,
                UpdateAccumulatorCall (Some 1) 0 White]"
    unfolding r by simp
  show ?thesis using p q d s r ne by blast
qed

text \<open>
  Claim C10. When the cached score of the node is not the invalid sentinel,
  \<^verbatim>\<open>Evaluate\<close> returns it and leaves the whole state as it was: every context on
  the path (accumulators, dirty flags, dirty pieces, cached score) and the trace of
  calls, so neither \<^verbatim>\<open>UpdateAccumulator\<close> nor \<^verbatim>\<open>network.Run\<close> is called; the result
  does not depend on the network.
\<close>

theorem cached_score_returned:
  assumes "nnScore (nnContext (path st ! 0)) \<noteq> InvalidValue"
  shows "Evaluate InvalidValue network st = Some (nnScore (nnContext (path st ! 0)), st)"
  using assms by (simp add: Evaluate_def Let_def)

theorem cached_score_returned_witness:
  "nnScore (nnContext (path CachedPath ! 0)) = 17
   \<and> nnScore (nnContext (path CachedPath ! 0)) \<noteq> 2147483647
   \<and> Evaluate 2147483647 ListNetwork CachedPath = Some (17, CachedPath)
   \<and> trace CachedPath = []"
proof -
  have s: "nnScore (nnContext (path CachedPath ! 0)) = 17"
    by (simp add: CachedPath_def DirtyNode_def)
  then have n: "nnScore (nnContext (path CachedPath ! 0)) \<noteq> 2147483647" by simp
  have t: "trace CachedPath = []" by (simp add: CachedPath_def)
  from cached_score_returned [OF n, of ListNetwork] s t n show ?thesis by simp
qed

section \<open>Properties of the training data loader\<close>

lemma binarySearch_correct:
  assumes "sorted cdf" "length cdf = N + 1" "N < 2 ^ 31"
  shows "low \<le> high \<Longrightarrow> high \<le> N \<Longrightarrow> (\<forall>j<low. cdf ! j \<le> u) \<Longrightarrow>
         (\<forall>j. high \<le> j \<longrightarrow> j \<le> N \<longrightarrow> u < cdf ! j) \<Longrightarrow>
         \<exists>r. binarySearch cdf u low high = Some r \<and> low \<le> r \<and> r \<le> high \<and>
             (\<forall>j<r. cdf ! j \<le> u) \<and> (\<forall>j. r \<le> j \<longrightarrow> j \<le> N \<longrightarrow> u < cdf ! j)"
proof (induction "high - low" arbitrary: low high rule: less_induct)
  case less
  show ?case
  proof (cases "low < high")
    case False
    with less.prems(1) have "low = high" by simp
    moreover have "binarySearch cdf u low high = Some low"
      by (subst binarySearch.simps) (simp only: False if_False)
    ultimately show ?thesis using less.prems by auto
  next
    case True
    let ?mid = "(low + high) div 2"
    have small: "low + high < 2 ^ 32" using less.prems(2) True assms(3) by simp
    then have m: "((low + high) mod 2 ^ 32) div 2 = ?mid" by (simp only: mod_less)
    have mid: "low \<le> ?mid" "?mid < high" using True by simp_all
    have midN: "?mid < length cdf" using mid(2) less.prems(2) assms(2) by simp
    have "?mid + 1 < 2 ^ 32" using mid(2) less.prems(2) assms(3) by simp
    then have m1: "(?mid + 1) mod 2 ^ 32 = ?mid + 1" by (simp only: mod_less)
    show ?thesis
    proof (cases "u \<ge> cdf ! ?mid")
      case ge: True
      have step: "binarySearch cdf u low high = binarySearch cdf u (?mid + 1) high"
        by (subst binarySearch.simps) (simp only: m m1 True ge if_True)
      have inv: "\<forall>j<?mid + 1. cdf ! j \<le> u"
      proof (intro allI impI)
        fix j assume "j < ?mid + 1"
        then have "j \<le> ?mid" by simp
        then have "cdf ! j \<le> cdf ! ?mid" using assms(1) midN by (simp add: sorted_nth_mono)
        with ge show "cdf ! j \<le> u" by simp
      qed
      have "high - (?mid + 1) < high - low" using mid by simp
      from less.hyps [OF this _ less.prems(2) inv less.prems(4)] mid
      obtain r where "binarySearch cdf u (?mid + 1) high = Some r" "?mid + 1 \<le> r" "r \<le> high"
        "\<forall>j<r. cdf ! j \<le> u" "\<forall>j. r \<le> j \<longrightarrow> j \<le> N \<longrightarrow> u < cdf ! j"
        by auto
      then show ?thesis using step mid by auto
    next
      case lt: False
      have step: "binarySearch cdf u low high = binarySearch cdf u low ?mid"
        by (subst binarySearch.simps) (simp only: m True lt if_True if_False)
      have inv: "\<forall>j. ?mid \<le> j \<longrightarrow> j \<le> N \<longrightarrow> u < cdf ! j"
      proof (intro allI impI)
        fix j assume j: "?mid \<le> j" "j \<le> N"
        then have "j < length cdf" using assms(2) by simp
        with assms(1) j(1) have "cdf ! ?mid \<le> cdf ! j" by (simp add: sorted_nth_mono)
        with lt show "u < cdf ! j" by simp
      qed
      have "?mid - low < high - low" using mid by simp
      moreover have "?mid \<le> N" using mid(2) less.prems(2) by simp
      ultimately obtain r where "binarySearch cdf u low ?mid = Some r" "low \<le> r" "r \<le> ?mid"
        "\<forall>j<r. cdf ! j \<le> u" "\<forall>j. r \<le> j \<longrightarrow> j \<le> N \<longrightarrow> u < cdf ! j"
        using less.hyps [OF _ mid(1) _ less.prems(3) inv] by auto
      then show ?thesis using step mid by auto
    qed
  qed
qed

lemma sample_index_general:
  assumes "IsFileCDF loader" "length (mContexts loader) < 2 ^ 31" "0 \<le> u" "u < 1"
  shows "\<exists>i. SampleInputFileIndex loader u = Some i \<and> i < length (mContexts loader) \<and>
             mCDF loader ! i \<le> u \<and>
             (\<forall>j<length (mCDF loader). mCDF loader ! j \<le> u \<longrightarrow> j \<le> i)"
proof -
  let ?cdf = "mCDF loader" and ?N = "length (mContexts loader)"
  from assms(1) have len: "length ?cdf = ?N + 1" and srt: "sorted ?cdf"
    and first: "?cdf ! 0 = 0" and lst: "last ?cdf = 1"
    by (simp_all add: IsFileCDF_def)
  have ne: "?cdf \<noteq> []" using len by auto
  have lastN: "?cdf ! ?N = 1" using lst len ne by (simp add: last_conv_nth)
  have "?N < 2 ^ 32" using assms(2) by simp
  then have Nmod: "?N mod 2 ^ 32 = ?N" by (simp only: mod_less)
  have "\<forall>j. ?N \<le> j \<longrightarrow> j \<le> ?N \<longrightarrow> u < ?cdf ! j"
    using lastN assms(4) by (auto simp: le_antisym)
  from binarySearch_correct [OF srt len assms(2) _ _ _ this, of 0]
  obtain r where r: "binarySearch ?cdf u 0 ?N = Some r" "r \<le> ?N"
    "\<forall>j<r. ?cdf ! j \<le> u" "\<forall>j. r \<le> j \<longrightarrow> j \<le> ?N \<longrightarrow> u < ?cdf ! j"
    by auto
  have rpos: "0 < r"
  proof (rule ccontr)
    assume "\<not> 0 < r"
    then have "r = 0" by simp
    with r(4) have "u < ?cdf ! 0" by simp
    with first assms(3) show False by simp
  qed
  have wrap: "(r + 2 ^ 32 - 1) mod 2 ^ 32 = r - 1"
  proof -
    obtain q where q: "r = Suc q" using rpos by (cases r) auto
    have "q < 2 ^ 32" using q r(2) assms(2) by simp
    then have "q mod 2 ^ 32 = q" by (simp only: mod_less)
    moreover have "r + 2 ^ 32 - 1 = q + 2 ^ 32" by (simp add: q)
    ultimately have "(r + 2 ^ 32 - 1) mod 2 ^ 32 = q" by (simp only: mod_add_self2)
    then show ?thesis by (simp only: q diff_Suc_1)
  qed
  have res: "SampleInputFileIndex loader u = Some (r - 1)"
    by (simp only: SampleInputFileIndex_def Nmod r(1) wrap option.case)
  have "r - 1 < ?N" using rpos r(2) by simp
  moreover have "?cdf ! (r - 1) \<le> u" using r(3) rpos by simp
  moreover have "\<forall>j<length ?cdf. ?cdf ! j \<le> u \<longrightarrow> j \<le> r - 1"
  proof (intro allI impI)
    fix j assume j: "j < length ?cdf" "?cdf ! j \<le> u"
    have "j < r"
    proof (rule ccontr)
      assume "\<not> j < r"
      then have "r \<le> j" by simp
      moreover have "j \<le> ?N" using j(1) len by simp
      ultimately have "u < ?cdf ! j" using r(4) by simp
      with j(2) show False by simp
    qed
    then show "j \<le> r - 1" by simp
  qed
  ultimately show ?thesis using res by blast
qed


lemma ThreeFilesLoader_cdf: "mCDF ThreeFilesLoader = [0, 1 / 10, 2 / 5, 1]"
  by (simp add: ThreeFilesLoader_def Init_def ThreeFiles_def SampleFile_def NewLoader_def
      PlainEnvironment_def GetSize_def sizeofPositionEntry_def SetPosition_def Let_def)

lemma ThreeFilesLoader_contexts: "length (mContexts ThreeFilesLoader) = 3"
  by (simp add: ThreeFilesLoader_def Init_def ThreeFiles_def SampleFile_def NewLoader_def
      PlainEnvironment_def GetSize_def sizeofPositionEntry_def SetPosition_def Let_def)

lemma ThreeFilesLoader_samples:
  "SampleInputFileIndex ThreeFilesLoader (5 / 100) = Some 0"
  "SampleInputFileIndex ThreeFilesLoader (4 / 10) = Some 2"
  "SampleInputFileIndex ThreeFilesLoader (99 / 100) = Some 2"
  by (simp_all add: SampleInputFileIndex_def ThreeFilesLoader_cdf ThreeFilesLoader_contexts
      binarySearch.simps)

text \<open>
  Claim C5. For every loader whose CDF is a file CDF (non-decreasing, first entry 0,
  last entry 1, one entry more than there are files; fewer than \<open>2^31\<close> files, so
  that the 32-bit sum in the search does not wrap) and every \<open>u\<close> in \<open>[0, 1)\<close>,
  \<^verbatim>\<open>SampleInputFileIndex\<close> returns, and what it returns is the largest index \<open>i\<close> with
  \<open>CDF[i] \<le> u\<close>, the index of a file. For the files of 100, 300 and 600 bytes of
  scenario E6, \<^verbatim>\<open>Init\<close> gives the CDF 0, 0.1, 0.4, 1 and the index is 0 for 0.05, 2 for
  0.4 and 2 for 0.99.
\<close>

theorem sample_file_index_largest:
  "(IsFileCDF loader \<and> length (mContexts loader) < 2 ^ 31 \<and> 0 \<le> u \<and> u < 1 \<longrightarrow>
      (\<exists>i. SampleInputFileIndex loader u = Some i \<and> i < length (mContexts loader) \<and>
           mCDF loader ! i \<le> u \<and>
           (\<forall>j<length (mCDF loader). mCDF loader ! j \<le> u \<longrightarrow> j \<le> i)))
   \<and> mCDF ThreeFilesLoader = [0, 1 / 10, 2 / 5, 1]
   \<and> SampleInputFileIndex ThreeFilesLoader (5 / 100) = Some 0
   \<and> SampleInputFileIndex ThreeFilesLoader (4 / 10) = Some 2
   \<and> SampleInputFileIndex ThreeFilesLoader (99 / 100) = Some 2"
  using sample_index_general [of loader u] ThreeFilesLoader_cdf ThreeFilesLoader_samples
  by blast

theorem sample_file_index_largest_witness:
  "IsFileCDF ThreeFilesLoader \<and> length (mContexts ThreeFilesLoader) < 2 ^ 31
   \<and> (0 :: real) \<le> 4 / 10 \<and> (4 / 10 :: real) < 1
   \<and> (\<exists>i. SampleInputFileIndex ThreeFilesLoader (4 / 10) = Some i \<and>
          i < length (mContexts ThreeFilesLoader) \<and> mCDF ThreeFilesLoader ! i \<le> 4 / 10)
   \<and> mCDF ThreeFilesLoader ! 2 = 4 / 10 \<and> mCDF ThreeFilesLoader ! 3 = 1"
proof -
  have c: "IsFileCDF ThreeFilesLoader"
    by (simp add: IsFileCDF_def ThreeFilesLoader_cdf ThreeFilesLoader_contexts)
  have n: "length (mContexts ThreeFilesLoader) < 2 ^ 31"
    by (simp add: ThreeFilesLoader_contexts)
  have u: "(0 :: real) \<le> 4 / 10" "(4 / 10 :: real) < 1" by simp_all
  have v: "mCDF ThreeFilesLoader ! 2 = 4 / 10" "mCDF ThreeFilesLoader ! 3 = 1"
    by (simp_all add: ThreeFilesLoader_cdf)
  from sample_file_index_largest [of ThreeFilesLoader "4 / 10"] c n u
  have "\<exists>i. SampleInputFileIndex ThreeFilesLoader (4 / 10) = Some i \<and>
          i < length (mContexts ThreeFilesLoader) \<and> mCDF ThreeFilesLoader ! i \<le> 4 / 10"
    by blast
  then show ?thesis using c n u v by blast
qed

text \<open>
  Claim C3 says that after \<^verbatim>\<open>Init\<close> the CDF ends at 1. \<^verbatim>\<open>Init\<close> adds the size of
  every file to \<^verbatim>\<open>totalDataSize\<close> before it decides whether to admit the file, and
  divides by that total. For a directory with a file of 100 bytes, which is admitted,
  followed by a file of 20 bytes, which is not, \<^verbatim>\<open>Init\<close> returns true with the CDF
  0, 100/120.
\<close>

theorem init_cdf_ends_below_one:
  "fst (Init PlainEnvironment () SmallLastFile NewLoader)
   \<and> map GetSize (map snd SmallLastFile) = [100, 20]
   \<and> length (mContexts (fst (snd (Init PlainEnvironment () SmallLastFile NewLoader)))) = 1
   \<and> mCDF (fst (snd (Init PlainEnvironment () SmallLastFile NewLoader))) = [0, 5 / 6]
   \<and> last (mCDF (fst (snd (Init PlainEnvironment () SmallLastFile NewLoader)))) \<noteq> 1"
  by (simp add: Init_def SmallLastFile_def SampleFile_def NewLoader_def
      PlainEnvironment_def GetSize_def sizeofPositionEntry_def SetPosition_def Let_def)

lemma AcceptEntry_mate:
  assumes "CheckmateValue env \<le> \<bar>score outEntry\<bar>"
  shows "AcceptEntry env ctx kingBucket outEntry gen outPosition = (False, gen, outPosition)"
proof -
  have c: "score outEntry \<ge> CheckmateValue env \<or> score outEntry \<le> - CheckmateValue env"
    using assms by linarith
  show ?thesis by (simp only: AcceptEntry_def c if_True)
qed

lemma AcceptEntry_accepts:
  assumes "AcceptEntry env ctx kingBucket outEntry gen outPosition = (True, gen', outPosition')"
  shows "\<bar>score outEntry\<bar> < CheckmateValue env"
proof (rule ccontr)
  assume "\<not> \<bar>score outEntry\<bar> < CheckmateValue env"
  then have "CheckmateValue env \<le> \<bar>score outEntry\<bar>" by simp
  from AcceptEntry_mate [OF this, of ctx kingBucket gen outPosition] assms
  show False by simp
qed

lemma FetchNextPosition_never_mate:
  "FetchNextPosition fuel env kingBucket ctx gen outEntry outPosition
     = Some (True, ctx', gen', outEntry', outPosition') \<Longrightarrow>
   \<bar>score outEntry'\<bar> < CheckmateValue env"
proof (induction fuel arbitrary: ctx gen outEntry outPosition)
  case 0
  then show ?case by simp
next
  case (Suc fuel)
  show ?case
  proof (cases "ReadNext (fileStream ctx)")
    case None
    with Suc.prems show ?thesis by simp
  next
    case (Some a)
    obtain entry stream where a: "a = (entry, stream)" by (cases a)
    let ?ctx = "ctx \<lparr> fileStream := stream \<rparr>"
    obtain acc g p where r: "AcceptEntry env ?ctx kingBucket entry gen outPosition = (acc, g, p)"
      by (cases "AcceptEntry env ?ctx kingBucket entry gen outPosition")
    show ?thesis
    proof (cases acc)
      case True
      with Suc.prems Some a r have "outEntry' = entry" by (simp add: Let_def)
      moreover from r True
      have "AcceptEntry env ?ctx kingBucket entry gen outPosition = (True, g, p)" by simp
      then have "\<bar>score entry\<bar> < CheckmateValue env" by (rule AcceptEntry_accepts)
      ultimately show ?thesis by simp
    next
      case False
      with Suc.prems Some a r
      have "FetchNextPosition fuel env kingBucket ?ctx g entry p
              = Some (True, ctx', gen', outEntry', outPosition')"
        by (simp add: Let_def)
      from Suc.IH [OF this] show ?thesis .
    qed
  qed
qed

text \<open>
  Claim C6. An entry whose score has an absolute value of at least \<^verbatim>\<open>CheckmateValue\<close>
  is rejected by the first filter, before any random number is drawn: for every
  generator state, context, king bucket and value of the constants and functions
  the later filters use. So whatever \<^verbatim>\<open>FetchNextPosition\<close> returns with true, for any
  amount of fuel, is not such an entry.
\<close>

theorem mate_scores_never_yielded:
  "(CheckmateValue env \<le> \<bar>score outEntry\<bar> \<longrightarrow>
      AcceptEntry env ctx kingBucket outEntry gen outPosition = (False, gen, outPosition))
   \<and> (FetchNextPosition fuel env kingBucket ctx gen outEntry outPosition
         = Some (True, ctx', gen', outEntry', outPosition') \<longrightarrow>
       \<not> CheckmateValue env \<le> \<bar>score outEntry'\<bar>)"
  using AcceptEntry_mate [of env outEntry ctx kingBucket gen outPosition]
    FetchNextPosition_never_mate [of fuel env kingBucket ctx gen outEntry outPosition
      ctx' gen' outEntry' outPosition']
  by auto

lemma accept_sample:
  "AcceptEntry PlainEnvironment ctx (- 1) (SampleEntry 25) () outPosition
     = (True, (), KingsApartPosition)"
  by code_simp

lemma read_first:
  "ReadNext (fileStream MateFirstContext)
     = Some (SampleEntry 32000, (fileStream MateFirstContext) \<lparr> GetPosition := 32 \<rparr>)"
  by (simp add: ReadNext_def Read_def MateFirstContext_def sizeofPositionEntry_def Let_def)

lemma read_second:
  "ReadNext ((fileStream MateFirstContext) \<lparr> GetPosition := 32 \<rparr>)
     = Some (SampleEntry 25, (fileStream MateFirstContext) \<lparr> GetPosition := 64 \<rparr>)"
  by (simp add: ReadNext_def Read_def MateFirstContext_def sizeofPositionEntry_def Let_def)

text \<open>
  A file with a mate-score entry followed by an ordinary one: the first is skipped
  and the second returned.
\<close>

theorem mate_scores_never_yielded_witness:
  "CheckmateValue PlainEnvironment \<le> \<bar>score (SampleEntry 32000)\<bar>
   \<and> AcceptEntry PlainEnvironment MateFirstContext (- 1) (SampleEntry 32000) () StartPosition
       = (False, (), StartPosition)
   \<and> FetchNextPosition 2 PlainEnvironment (- 1) MateFirstContext () (SampleEntry 0) StartPosition
       = Some (True,
               MateFirstContext \<lparr> fileStream := (fileStream MateFirstContext) \<lparr> GetPosition := 64 \<rparr> \<rparr>,
               (), SampleEntry 25, KingsApartPosition)
   \<and> \<not> CheckmateValue PlainEnvironment \<le> \<bar>score (SampleEntry 25)\<bar>"
proof -
  let ?ctx' = "MateFirstContext \<lparr> fileStream := (fileStream MateFirstContext) \<lparr> GetPosition := 64 \<rparr> \<rparr>"
  have m: "CheckmateValue PlainEnvironment \<le> \<bar>score (SampleEntry 32000)\<bar>"
    by (simp add: PlainEnvironment_def SampleEntry_def)
  note t = mate_scores_never_yielded [where env = PlainEnvironment and ctx = MateFirstContext
      and kingBucket = "- 1" and gen = "()" and outPosition = StartPosition and fuel = 2
      and ctx' = ?ctx' and gen' = "()" and outEntry' = "SampleEntry 25"
      and outPosition' = KingsApartPosition]
  from t [where outEntry = "SampleEntry 32000"] m
  have a: "AcceptEntry PlainEnvironment MateFirstContext (- 1) (SampleEntry 32000) () StartPosition
       = (False, (), StartPosition)"
    by blast
  have two: "(2 :: nat) = Suc (Suc 0)" by simp
  have f: "FetchNextPosition 2 PlainEnvironment (- 1) MateFirstContext () (SampleEntry 0) StartPosition
     = Some (True, ?ctx', (), SampleEntry 25, KingsApartPosition)"
    unfolding two
    by (simp add: read_first read_second a accept_sample
        AcceptEntry_mate [OF m])
  from t [where outEntry = "SampleEntry 0"] f
  have b: "\<not> CheckmateValue PlainEnvironment \<le> \<bar>score (SampleEntry 25)\<bar>"
    by blast
  show ?thesis using m a f b by blast
qed

section \<open>Further properties\<close>

text \<open>
  Index disjointness. Within one position and perspective, two distinct combinations
  of piece type, colour and valid square have distinct delta indices, as long as a
  king of the side whose perspective is taken is asked for on files a..d after the
  flips.
\<close>

theorem delta_index_injective:
  assumes "IsValid sq" "IsValid sq'"
    and "piece = King \<and> pieceColor = perspective \<longrightarrow> File (sq XOR FlipMask pos perspective) < 4"
    and "piece' = King \<and> pieceColor' = perspective \<longrightarrow> File (sq' XOR FlipMask pos perspective) < 4"
    and "DirtyPieceToFeatureIndex piece pieceColor sq pos perspective
         = DirtyPieceToFeatureIndex piece' pieceColor' sq' pos perspective"
  shows "piece = piece' \<and> pieceColor = pieceColor' \<and> sq = sq'"
proof -
  have v: "(piece, pieceColor = perspective, sq XOR FlipMask pos perspective) \<in> set ValidTriples"
    using assms(1,3) by (simp add: mem_ValidTriples IsValid_def xor_FlipMask_valid)
  have v': "(piece', pieceColor' = perspective, sq' XOR FlipMask pos perspective) \<in> set ValidTriples"
    using assms(2,4) by (simp add: mem_ValidTriples IsValid_def xor_FlipMask_valid)
  from assms(5) have "(ucast (FeatureIndexOf piece (pieceColor = perspective)
                         (sq XOR FlipMask pos perspective)) :: 16 word)
                  = ucast (FeatureIndexOf piece' (pieceColor' = perspective)
                         (sq' XOR FlipMask pos perspective))"
    by (simp add: delta_FeatureIndexOf)
  with FeatureIndexOf_inj [OF v v']
  have e: "piece = piece'" "(pieceColor = perspective) = (pieceColor' = perspective)"
      "sq XOR FlipMask pos perspective = sq' XOR FlipMask pos perspective"
    by simp_all
  from e(2) have "pieceColor = pieceColor'"
    by (cases pieceColor; cases pieceColor'; cases perspective) simp_all
  moreover from e(3) have "sq = sq'" by (rule xor_cancel)
  ultimately show ?thesis using e(1) by simp
qed

theorem delta_index_injective_witness:
  "IsValid 4 \<and> File (4 XOR FlipMask StartPosition White) < 4
   \<and> DirtyPieceToFeatureIndex King White 4 StartPosition White = 323
   \<and> King = King \<and> White = White \<and> (4 :: Square) = 4"
proof -
  have v: "IsValid 4" by code_simp
  have f: "File (4 XOR FlipMask StartPosition White) < 4" by code_simp
  have d: "DirtyPieceToFeatureIndex King White 4 StartPosition White = 323" by code_simp
  have i: "King = King \<and> White = White \<longrightarrow> File (4 XOR FlipMask StartPosition White) < 4"
    using f by simp
  have "King = King \<and> White = White \<and> (4 :: Square) = 4"
    by (rule delta_index_injective [where pos = StartPosition and perspective = White,
          OF v v i i refl])
  then show ?thesis using v f d by blast
qed

lemma InitLoop_invariant:
  assumes "InitLoop env directory (loader, totalSize, gen) = (loader', totalSize', gen')"
    and "sorted (mCDF loader)" and "\<forall>v \<in> set (mCDF loader). 0 \<le> v \<and> v \<le> real totalSize"
    and "length (mCDF loader) = length (mContexts loader) + 1"
  shows "sorted (mCDF loader') \<and> (\<forall>v \<in> set (mCDF loader'). 0 \<le> v \<and> v \<le> real totalSize')
       \<and> length (mCDF loader') = length (mContexts loader') + 1
       \<and> mCDF loader' ! 0 = mCDF loader ! 0
       \<and> totalSize \<le> totalSize' \<and> (totalSize' = 0 \<longrightarrow> loader' = loader)"
  using assms
proof (induction directory arbitrary: loader totalSize gen)
  case Nil
  then show ?case by simp
next
  case (Cons item rest)
  obtain name stream where item: "item = (name, stream)" by (cases item)
  let ?totalSize = "totalSize + GetSize stream"
  show ?case
  proof (cases "IsOpen stream \<and> GetSize stream > sizeofPositionEntry")
    case False
    with Cons.prems(1) item
    have r: "InitLoop env rest (loader, ?totalSize, gen) = (loader', totalSize', gen')"
      by (simp add: Let_def)
    have b: "\<forall>v \<in> set (mCDF loader). 0 \<le> v \<and> v \<le> real ?totalSize"
      using Cons.prems(3) by fastforce
    from Cons.IH [OF r Cons.prems(2) b Cons.prems(4)] show ?thesis by simp
  next
    case True
    obtain entryIndex g1 where u1: "uniformInt env 0 (GetSize stream div sizeofPositionEntry - 1) gen
        = (entryIndex, g1)"
      by (cases "uniformInt env 0 (GetSize stream div sizeofPositionEntry - 1) gen")
    obtain skipping g2 where u2: "uniformReal env 0 (1 / 10) g1 = (skipping, g2)"
      by (cases "uniformReal env 0 (1 / 10) g1")
    let ?ctx = "\<lparr> fileStream = SetPosition (entryIndex * sizeofPositionEntry) stream,
                   fileName = name, fileSize = GetSize stream, skippingProbability = skipping \<rparr>"
    let ?loader = "loader \<lparr> mContexts := mContexts loader @ [?ctx],
                            mCDF := mCDF loader @ [real ?totalSize] \<rparr>"
    from Cons.prems(1) item True u1 u2
    have r: "InitLoop env rest (?loader, ?totalSize, g2) = (loader', totalSize', gen')"
      by (simp add: Let_def)
    have s: "sorted (mCDF ?loader)"
      using Cons.prems(2,3) by (fastforce simp add: sorted_append)
    have b: "\<forall>v \<in> set (mCDF ?loader). 0 \<le> v \<and> v \<le> real ?totalSize"
      using Cons.prems(3) by fastforce
    have l: "length (mCDF ?loader) = length (mContexts ?loader) + 1"
      using Cons.prems(4) by simp
    have ne: "mCDF loader \<noteq> []" using Cons.prems(4) by auto
    have z: "mCDF ?loader ! 0 = mCDF loader ! 0" using ne by (simp add: nth_append)
    have pos: "0 < ?totalSize" using True by simp
    from Cons.IH [OF r s b l]
    have ih: "sorted (mCDF loader')" "\<forall>v \<in> set (mCDF loader'). 0 \<le> v \<and> v \<le> real totalSize'"
      "length (mCDF loader') = length (mContexts loader') + 1"
      "mCDF loader' ! 0 = mCDF ?loader ! 0" "?totalSize \<le> totalSize'"
      by simp_all
    from ih(5) pos have "totalSize' \<noteq> 0" "totalSize \<le> totalSize'" by linarith+
    with ih z show ?thesis by simp
  qed
qed

text \<open>
  What holds of the CDF after \<^verbatim>\<open>Init\<close> on a new loader, for every directory and
  generator: it is non-decreasing, starts with 0, has one entry more than there are
  admitted files, has all its entries between 0 and 1, and the result of \<^verbatim>\<open>Init\<close>
  says whether a file was admitted.
\<close>

theorem init_cdf_shape:
  assumes "Init env gen directory NewLoader = (ok, loader, gen')"
  shows "sorted (mCDF loader) \<and> mCDF loader ! 0 = 0
       \<and> length (mCDF loader) = length (mContexts loader) + 1
       \<and> (\<forall>v \<in> set (mCDF loader). 0 \<le> v \<and> v \<le> 1)
       \<and> ok = (mContexts loader \<noteq> [])"
proof -
  let ?l0 = "NewLoader \<lparr> mCDF := mCDF NewLoader @ [0] \<rparr>"
  obtain l1 totalSize g1 where r: "InitLoop env directory (?l0, 0, gen) = (l1, totalSize, g1)"
    by (cases "InitLoop env directory (?l0, 0, gen)")
  have "sorted (mCDF ?l0)" "\<forall>v \<in> set (mCDF ?l0). 0 \<le> v \<and> v \<le> real 0"
    "length (mCDF ?l0) = length (mContexts ?l0) + 1"
    by (simp_all add: NewLoader_def)
  from InitLoop_invariant [OF r this]
  have i: "sorted (mCDF l1)" "\<forall>v \<in> set (mCDF l1). 0 \<le> v \<and> v \<le> real totalSize"
    "length (mCDF l1) = length (mContexts l1) + 1" "mCDF l1 ! 0 = 0"
    by (simp_all add: NewLoader_def)
  have ne: "mCDF l1 \<noteq> []" using i(3) by auto
  show ?thesis
  proof (cases "totalSize > 0")
    case False
    with assms r have "loader = l1" "ok = (mContexts l1 \<noteq> [])" by (auto simp add: Init_def Let_def)
    with i False show ?thesis by auto
  next
    case True
    with assms r have l: "loader = l1 \<lparr> mCDF := map (\<lambda>v. v / real totalSize) (mCDF l1) \<rparr>"
      and o: "ok = (mContexts l1 \<noteq> [])"
      by (auto simp add: Init_def Let_def)
    have "sorted_wrt (\<lambda>x y. x / real totalSize \<le> y / real totalSize) (mCDF l1)"
      by (rule sorted_wrt_mono_rel [OF _ i(1)]) (simp add: divide_right_mono)
    then have "sorted (map (\<lambda>v. v / real totalSize) (mCDF l1))"
      by (simp add: sorted_map)
    moreover have "map (\<lambda>v. v / real totalSize) (mCDF l1) ! 0 = 0"
      using ne i(4) by (simp add: nth_map)
    moreover have "\<forall>v \<in> set (map (\<lambda>v. v / real totalSize) (mCDF l1)). 0 \<le> v \<and> v \<le> 1"
      using i(2) True by (auto simp add: divide_le_eq_1)
    ultimately show ?thesis using l o i(3) by simp
  qed
qed

theorem init_cdf_shape_witness:
  "Init PlainEnvironment () SmallLastFile NewLoader
     = (True, fst (snd (Init PlainEnvironment () SmallLastFile NewLoader)), ())
   \<and> sorted (mCDF (fst (snd (Init PlainEnvironment () SmallLastFile NewLoader))))
   \<and> mCDF (fst (snd (Init PlainEnvironment () SmallLastFile NewLoader))) ! 0 = 0
   \<and> mCDF (fst (snd (Init PlainEnvironment () SmallLastFile NewLoader))) = [0, 5 / 6]"
proof -
  let ?r = "Init PlainEnvironment () SmallLastFile NewLoader"
  have e: "?r = (True, fst (snd ?r), ())"
    by (simp add: Init_def SmallLastFile_def SampleFile_def NewLoader_def
      PlainEnvironment_def GetSize_def sizeofPositionEntry_def SetPosition_def Let_def)
  have c: "mCDF (fst (snd ?r)) = [0, 5 / 6]"
    by (simp add: Init_def SmallLastFile_def SampleFile_def NewLoader_def
      PlainEnvironment_def GetSize_def sizeofPositionEntry_def SetPosition_def Let_def)
  from init_cdf_shape [OF e] e c show ?thesis by blast
qed

end
